theory Spec2Isabelle
  imports Main "HOL-Library.Word" "HOL-Library.Signed_Division"
begin

unbundle bit_operations_syntax

section \<open>Hybrid NOrec: the program state\<close>

text \<open>
  The model follows \<^verbatim>\<open>hynorec_cgrundey.cpp\<close>. It describes the operations of one
  thread on the shared variables, executed without interleaving of other threads: a
  read of the volatile \<^verbatim>\<open>seqlock\<close> returns the value the state holds. The C type
  \<^verbatim>\<open>int\<close> and \<^verbatim>\<open>unsigned int\<close> are 32-bit words (signed reading through
  \<open>sint\<close>), \<^verbatim>\<open>uintptr_t\<close> is a 64-bit word. A loop that may spin forever is a
  \<^theory_text>\<open>partial_function\<close> in the option monad: \<open>None\<close> is "never returns".
\<close>

definition NUM_ACCTS :: "32 word" where "NUM_ACCTS = 1000"
definition NUM_TXN :: int where "NUM_TXN = 100000"
definition TRFR_AMT :: "32 word" where "TRFR_AMT = 50"
definition INIT_BALANCE :: "32 word" where "INIT_BALANCE = 1000"

text \<open>\<^verbatim>\<open>typedef struct { int addr; int value; } Acct;\<close>\<close>

record Acct =
  acct_addr :: "32 word"
  acct_value :: "32 word"

text \<open>
  The globals (\<^verbatim>\<open>accts\<close>, \<^verbatim>\<open>seqlock\<close>, \<^verbatim>\<open>counter\<close>), the thread-local variables
  (\<^verbatim>\<open>read_set\<close>, \<^verbatim>\<open>write_set\<close>, \<^verbatim>\<open>rv\<close>, \<^verbatim>\<open>snap_counter\<close>) and the locals of
  \<^verbatim>\<open>th_run\<close> that live across transactions (\<^verbatim>\<open>tid\<close>, \<^verbatim>\<open>htmCount\<close>,
  \<^verbatim>\<open>swCount\<close>). The two arrays of 72 padded words are lists of their \<^verbatim>\<open>val\<close> fields.
\<close>

record state =
  accts :: "Acct list"
  read_set :: "Acct list"
  write_set :: "Acct list"
  rv :: "32 word"
  snap_counter :: "64 word list"
  seqlock :: "32 word"
  counter :: "64 word list"
  tid :: "32 word"
  htmCount :: "32 word"
  swCount :: "32 word"

text \<open>
  How a routine ends: it returns a value, it throws \<^verbatim>\<open>"Transaction ABORTED"\<close>, or it
  indexes \<^verbatim>\<open>accts\<close> or \<^verbatim>\<open>counter\<close> out of range, which C++ leaves undefined.
\<close>

datatype 'a outcome = Returned 'a state | Aborted state | Undefined_Behaviour

datatype scan = Scan_Done | Scan_Abort | Scan_Undefined

text \<open>\<^verbatim>\<open>accts[a]\<close> for an \<^verbatim>\<open>int a\<close>; \<open>None\<close> outside the vector.\<close>

definition acct_at :: "Acct list \<Rightarrow> 32 word \<Rightarrow> Acct option" where
  "acct_at m a =
     (if 0 \<le> sint a \<and> nat (sint a) < length m then Some (m ! nat (sint a)) else None)"

text \<open>\<^verbatim>\<open>accts[a].value = v\<close>; \<open>None\<close> outside the vector.\<close>

definition acct_store :: "Acct list \<Rightarrow> 32 word \<Rightarrow> 32 word \<Rightarrow> Acct list option" where
  "acct_store m a v =
     (if 0 \<le> sint a \<and> nat (sint a) < length m
      then Some (m[nat (sint a) := (m ! nat (sint a))\<lparr>acct_value := v\<rparr>])
      else None)"

section \<open>The software path\<close>

definition sw_abort :: "state \<Rightarrow> 'a outcome" where
  "sw_abort s = Aborted (s\<lparr>read_set := [], write_set := []\<rparr>)"

text \<open>\<^verbatim>\<open>do { rv = seqlock; } while (rv & 1);\<close>\<close>

partial_function (option) read_seqlock_even :: "state \<Rightarrow> state option" where
  "read_seqlock_even s =
     (let s1 = s\<lparr>rv := seqlock s\<rparr>
      in if rv s1 AND 1 \<noteq> 0 then read_seqlock_even s1 else Some s1)"

declare read_seqlock_even.simps [code]

text \<open>The \<^verbatim>\<open>for\<close> loop of \<^verbatim>\<open>sw_validate\<close> over the read set, against the memory \<open>m\<close>.\<close>

fun read_set_scan :: "Acct list \<Rightarrow> Acct list \<Rightarrow> scan" where
  "read_set_scan m [] = Scan_Done"
| "read_set_scan m (e # es) =
     (case acct_at m (acct_addr e) of
        None \<Rightarrow> Scan_Undefined
      | Some c \<Rightarrow> if acct_value e \<noteq> acct_value c then Scan_Abort else read_set_scan m es)"

partial_function (option) sw_validate :: "state \<Rightarrow> unit outcome option" where
  "sw_validate s =
     Option.bind (read_seqlock_even s) (\<lambda>s1.
       case read_set_scan (accts s1) (read_set s1) of
         Scan_Undefined \<Rightarrow> Some Undefined_Behaviour
       | Scan_Abort \<Rightarrow> Some (sw_abort s1)
       | Scan_Done \<Rightarrow> if rv s1 \<noteq> seqlock s1 then sw_validate s1 else Some (Returned () s1))"

declare sw_validate.simps [code]

text \<open>\<^verbatim>\<open>std::copy\<close> of the whole \<^verbatim>\<open>counter\<close> array into \<^verbatim>\<open>snap_counter\<close>.\<close>

definition sw_begin :: "state \<Rightarrow> state option" where
  "sw_begin s =
     Option.bind (read_seqlock_even s) (\<lambda>s1. Some (s1\<lparr>snap_counter := counter s1\<rparr>))"

text \<open>
  \<^verbatim>\<open>while(!__sync_bool_compare_and_swap(&seqlock, rv, rv + 1)) sw_validate();\<close>
\<close>

partial_function (option) acquire_window :: "state \<Rightarrow> unit outcome option" where
  "acquire_window s =
     (if seqlock s = rv s then Some (Returned () (s\<lparr>seqlock := rv s + 1\<rparr>))
      else Option.bind (sw_validate s) (\<lambda>r.
        case r of
          Returned _ s1 \<Rightarrow> acquire_window s1
        | Aborted s1 \<Rightarrow> Some (Aborted s1)
        | Undefined_Behaviour \<Rightarrow> Some Undefined_Behaviour))"

declare acquire_window.simps [code]

text \<open>Whether some slot \<open>i < 72\<close> has \<^verbatim>\<open>snap_counter[i].val != counter[i].val\<close>.\<close>

definition counter_changed :: "64 word list \<Rightarrow> 64 word list \<Rightarrow> bool" where
  "counter_changed snap cnt = list_ex (\<lambda>i. snap ! i \<noteq> cnt ! i) [0..<72]"

text \<open>The writeback loop, in write-set order.\<close>

fun writeback :: "Acct list \<Rightarrow> Acct list \<Rightarrow> Acct list option" where
  "writeback m [] = Some m"
| "writeback m (e # es) =
     (case acct_store m (acct_addr e) (acct_value e) of
        None \<Rightarrow> None
      | Some m1 \<Rightarrow> writeback m1 es)"

definition sw_commit :: "state \<Rightarrow> unit outcome option" where
  "sw_commit s =
     (if write_set s = [] then Some (Returned () s)
      else Option.bind (acquire_window s) (\<lambda>r.
        case r of
          Aborted s1 \<Rightarrow> Some (Aborted s1)
        | Undefined_Behaviour \<Rightarrow> Some Undefined_Behaviour
        | Returned _ s1 \<Rightarrow>
            Option.bind
              (if counter_changed (snap_counter s1) (counter s1) then sw_validate s1
               else Some (Returned () s1))
              (\<lambda>r2.
                case r2 of
                  Aborted s2 \<Rightarrow> Some (Aborted s2)
                | Undefined_Behaviour \<Rightarrow> Some Undefined_Behaviour
                | Returned _ s2 \<Rightarrow>
                    (case writeback (accts s2) (write_set s2) of
                       None \<Rightarrow> Some Undefined_Behaviour
                     | Some m \<Rightarrow>
                         Some (Returned () (s2\<lparr>accts := m, seqlock := seqlock s2 + 1,
                                 read_set := [], write_set := []\<rparr>))))))"

text \<open>
  The \<^verbatim>\<open>while(rv != seqlock)\<close> loop of \<^verbatim>\<open>sw_read\<close>, then the \<^verbatim>\<open>push_back\<close> and the
  return; \<open>v\<close> is the local \<^verbatim>\<open>val\<close>.
\<close>

partial_function (option) sw_read_loop :: "32 word \<Rightarrow> 32 word \<Rightarrow> state \<Rightarrow> 32 word outcome option"
where
  "sw_read_loop a v s =
     (if rv s \<noteq> seqlock s
      then Option.bind (sw_validate s) (\<lambda>r.
        case r of
          Aborted s1 \<Rightarrow> Some (Aborted s1)
        | Undefined_Behaviour \<Rightarrow> Some Undefined_Behaviour
        | Returned _ s1 \<Rightarrow>
            (case acct_at (accts s1) a of
               None \<Rightarrow> Some Undefined_Behaviour
             | Some c \<Rightarrow> sw_read_loop a (acct_value c) s1))
      else Some (Returned v
             (s\<lparr>read_set := read_set s @ [\<lparr>acct_addr = a, acct_value = v\<rparr>]\<rparr>)))"

declare sw_read_loop.simps [code]

definition sw_read :: "32 word \<Rightarrow> state \<Rightarrow> 32 word outcome option" where
  "sw_read a s =
     (case find (\<lambda>e. acct_addr e = a) (rev (write_set s)) of
        Some e \<Rightarrow> Some (Returned (acct_value e) s)
      | None \<Rightarrow>
          (case acct_at (accts s) a of
             None \<Rightarrow> Some Undefined_Behaviour
           | Some c \<Rightarrow> sw_read_loop a (acct_value c) s))"

definition sw_write :: "32 word \<Rightarrow> 32 word \<Rightarrow> state \<Rightarrow> state" where
  "sw_write a v s = s\<lparr>write_set := write_set s @ [\<lparr>acct_addr = a, acct_value = v\<rparr>]\<rparr>"

section \<open>The transaction bodies of \<^verbatim>\<open>th_run\<close>\<close>

text \<open>
  \<^verbatim>\<open>rand_r_32\<close> is declared in \<^verbatim>\<open>rand_r_32.h\<close>, which is not among the sources. It is
  a parameter of the model: a function from the seed to the number drawn and the new
  seed. The number drawn is read as unsigned, so that \<^verbatim>\<open>% NUM_ACCTS\<close> is below 1000.
  The seed is the local \<^verbatim>\<open>tid\<close>, which \<^verbatim>\<open>th_run\<close> passes by address.
\<close>

type_synonym rand = "32 word \<Rightarrow> 32 word \<times> 32 word"

text \<open>\<^verbatim>\<open>while (r1 == r2) { r1 = rand_r_32(&tid) % NUM_ACCTS; r2 = ... }\<close>\<close>

partial_function (option) pick_accounts ::
  "rand \<Rightarrow> 32 word \<Rightarrow> 32 word \<Rightarrow> state \<Rightarrow> (32 word \<times> 32 word \<times> state) option"
where
  "pick_accounts rand_r_32 r1 r2 s =
     (if r1 = r2
      then (let d1 = rand_r_32 (tid s); d2 = rand_r_32 (snd d1)
            in pick_accounts rand_r_32 (fst d1 mod NUM_ACCTS) (fst d2 mod NUM_ACCTS)
                 (s\<lparr>tid := snd d2\<rparr>))
      else Some (r1, r2, s))"

declare pick_accounts.simps [code]

text \<open>
  The \<^verbatim>\<open>for (int j = 0; j < 10; j++)\<close> loop of the hardware transaction; the first
  argument counts the iterations that remain. The second account is debited, as in
  the source: \<^verbatim>\<open>accts[r2].value = a2 - TRFR_AMT\<close>.
\<close>

fun hw_transfers :: "rand \<Rightarrow> nat \<Rightarrow> state \<Rightarrow> unit outcome option" where
  "hw_transfers rand_r_32 0 s = Some (Returned () s)"
| "hw_transfers rand_r_32 (Suc n) s =
     Option.bind (pick_accounts rand_r_32 0 0 s) (\<lambda>(r1, r2, s1).
       case acct_at (accts s1) r1 of
         None \<Rightarrow> Some Undefined_Behaviour
       | Some c1 \<Rightarrow>
           if acct_value c1 <s TRFR_AMT then Some (Returned () s1)
           else
             (case acct_at (accts s1) r2 of
                None \<Rightarrow> Some Undefined_Behaviour
              | Some c2 \<Rightarrow>
                  (case acct_store (accts s1) r1 (acct_value c1 - TRFR_AMT) of
                     None \<Rightarrow> Some Undefined_Behaviour
                   | Some m1 \<Rightarrow>
                       (case acct_store m1 r2 (acct_value c2 - TRFR_AMT) of
                          None \<Rightarrow> Some Undefined_Behaviour
                        | Some m2 \<Rightarrow> hw_transfers rand_r_32 n (s1\<lparr>accts := m2\<rparr>)))))"

text \<open>
  The region between \<^verbatim>\<open>_xbegin\<close> and \<^verbatim>\<open>_xend\<close>, once it has started.
  \<open>Aborted s\<close> stands for \<^verbatim>\<open>_xabort(1)\<close>: the region is rolled back to the state \<open>s\<close> at
  \<^verbatim>\<open>_xbegin\<close>. \<^verbatim>\<open>counter[tid]\<close> is indexed with the seed as \<^verbatim>\<open>rand_r_32\<close> left it.
\<close>

definition hw_region :: "rand \<Rightarrow> state \<Rightarrow> unit outcome option" where
  "hw_region rand_r_32 s =
     (if seqlock s AND 1 \<noteq> 0 then Some (Aborted s)
      else Option.bind (hw_transfers rand_r_32 10 s) (\<lambda>r.
        case r of
          Aborted s1 \<Rightarrow> Some (Aborted s1)
        | Undefined_Behaviour \<Rightarrow> Some Undefined_Behaviour
        | Returned _ s1 \<Rightarrow>
            if unat (tid s1) < 72
            then Some (Returned ()
                   (s1\<lparr>counter := (counter s1)[unat (tid s1) := counter s1 ! unat (tid s1) + 1]\<rparr>))
            else Some Undefined_Behaviour))"

text \<open>The \<^verbatim>\<open>for\<close> loop of the software transaction, between \<^verbatim>\<open>sw_begin\<close> and \<^verbatim>\<open>sw_commit\<close>.\<close>

fun sw_transfers :: "rand \<Rightarrow> nat \<Rightarrow> state \<Rightarrow> unit outcome option" where
  "sw_transfers rand_r_32 0 s = Some (Returned () s)"
| "sw_transfers rand_r_32 (Suc n) s =
     Option.bind (pick_accounts rand_r_32 0 0 s) (\<lambda>(r1, r2, s1).
       Option.bind (sw_read r1 s1) (\<lambda>ra.
         case ra of
           Aborted s2 \<Rightarrow> Some (Aborted s2)
         | Undefined_Behaviour \<Rightarrow> Some Undefined_Behaviour
         | Returned a1 s2 \<Rightarrow>
             if a1 <s TRFR_AMT then Some (Returned () s2)
             else Option.bind (sw_read r2 s2) (\<lambda>rb.
               case rb of
                 Aborted s3 \<Rightarrow> Some (Aborted s3)
               | Undefined_Behaviour \<Rightarrow> Some Undefined_Behaviour
               | Returned a2 s3 \<Rightarrow>
                   sw_transfers rand_r_32 n
                     (sw_write r2 (a2 + TRFR_AMT) (sw_write r1 (a1 - TRFR_AMT) s3)))))"

text \<open>The body of the \<^verbatim>\<open>try\<close> block, up to and including \<^verbatim>\<open>sw_commit()\<close>.\<close>

definition sw_txn :: "rand \<Rightarrow> state \<Rightarrow> unit outcome option" where
  "sw_txn rand_r_32 s =
     Option.bind (sw_begin s) (\<lambda>s1.
       Option.bind (sw_transfers rand_r_32 10 s1) (\<lambda>r.
         case r of
           Aborted s2 \<Rightarrow> Some (Aborted s2)
         | Undefined_Behaviour \<Rightarrow> Some Undefined_Behaviour
         | Returned _ s2 \<Rightarrow> sw_commit s2))"

section \<open>The dispatcher of \<^verbatim>\<open>th_run\<close>\<close>

text \<open>
  Modelled from the spec: \<^verbatim>\<open>_xbegin\<close>, \<^verbatim>\<open>_xend\<close> and \<^verbatim>\<open>_xabort\<close> of \<^verbatim>\<open>rtm.h\<close>,
  which is not among the sources. "If the CPU aborts the region (conflict, capacity,
  explicit abort, or any other cause), the path returns control to the dispatcher without
  side effects." The hardware is a schedule \<open>hw\<close>, one entry for each \<^verbatim>\<open>_xbegin\<close>
  executed: \<open>True\<close> when the region runs to \<^verbatim>\<open>_xend\<close> unless it aborts itself,
  \<open>False\<close> when the CPU aborts it. An exhausted schedule aborts every region.
\<close>

datatype event = HTM_Commit | HTM_Abort | SW_Commit | SW_Abort

definition xbegin_started :: "bool list \<Rightarrow> bool" where
  "xbegin_started hw = (case hw of [] \<Rightarrow> False | b # _ \<Rightarrow> b)"

text \<open>
  One pass of the \<^verbatim>\<open>for\<close> body: the \<^verbatim>\<open>do ... while (aborted)\<close> loop with the label
  \<^verbatim>\<open>again\<close>. The recursive call with \<open>attempts - 1\<close> is \<^verbatim>\<open>goto again\<close>; the one with 5
  is the next round of the \<^verbatim>\<open>do\<close> loop, which declares \<^verbatim>\<open>int attempts = 5\<close> anew.
  \<open>tr\<close> records, in order, how each attempt ended; the result also holds the part of
  the schedule that was not used.
\<close>

partial_function (option) run_txn ::
  "rand \<Rightarrow> bool list \<Rightarrow> int \<Rightarrow> event list \<Rightarrow> state \<Rightarrow> (event list \<times> bool list) outcome option"
where
  "run_txn rand_r_32 hw attempts tr s =
     Option.bind (if xbegin_started hw then hw_region rand_r_32 s else Some (Aborted s)) (\<lambda>r.
       case r of
         Returned _ s1 \<Rightarrow>
           Some (Returned (tr @ [HTM_Commit], tl hw) (s1\<lparr>htmCount := htmCount s1 + 1\<rparr>))
       | Undefined_Behaviour \<Rightarrow> Some Undefined_Behaviour
       | Aborted s1 \<Rightarrow>
           if attempts > 0
           then run_txn rand_r_32 (tl hw) (attempts - 1) (tr @ [HTM_Abort]) s1
           else Option.bind (sw_txn rand_r_32 s1) (\<lambda>r2.
             case r2 of
               Returned _ s2 \<Rightarrow>
                 Some (Returned (tr @ [HTM_Abort, SW_Commit], tl hw)
                         (s2\<lparr>swCount := swCount s2 + 1\<rparr>))
             | Undefined_Behaviour \<Rightarrow> Some Undefined_Behaviour
             | Aborted s2 \<Rightarrow> run_txn rand_r_32 (tl hw) 5 (tr @ [HTM_Abort, SW_Abort]) s2))"

declare run_txn.simps [code]

text \<open>\<^verbatim>\<open>for (int i = 0; i < workload; i++)\<close>; the second argument counts what remains.\<close>

fun txn_loop ::
  "rand \<Rightarrow> nat \<Rightarrow> bool list \<Rightarrow> event list \<Rightarrow> state \<Rightarrow> (event list \<times> bool list) outcome option"
where
  "txn_loop rand_r_32 0 hw tr s = Some (Returned (tr, hw) s)"
| "txn_loop rand_r_32 (Suc n) hw tr s =
     Option.bind (run_txn rand_r_32 hw 5 tr s) (\<lambda>r.
       case r of
         Returned (tr1, hw1) s1 \<Rightarrow> txn_loop rand_r_32 n hw1 tr1 s1
       | Aborted s1 \<Rightarrow> Some (Aborted s1)
       | Undefined_Behaviour \<Rightarrow> Some Undefined_Behaviour)"

text \<open>\<^verbatim>\<open>int workload = NUM_TXN / numThreads;\<close> (C division truncates).\<close>

definition workload :: "int \<Rightarrow> int" where
  "workload numThreads = NUM_TXN sdiv numThreads"

text \<open>
  \<^verbatim>\<open>th_run\<close> from its first statement after the start barrier to the end of the
  \<^verbatim>\<open>for\<close> loop. \<open>args\<close> is the thread's argument, \<open>tid\<close> its conversion to
  \<^verbatim>\<open>unsigned int\<close>.
\<close>

definition th_run ::
  "rand \<Rightarrow> bool list \<Rightarrow> int \<Rightarrow> int \<Rightarrow> state \<Rightarrow> (event list \<times> bool list) outcome option"
where
  "th_run rand_r_32 hw numThreads args s =
     txn_loop rand_r_32 (nat (workload numThreads)) hw []
       (s\<lparr>tid := word_of_int args, htmCount := 0, swCount := 0\<rparr>)"

section \<open>\<^verbatim>\<open>main\<close>\<close>

text \<open>
  \<^verbatim>\<open>atoi\<close> belongs to the C library and is a parameter. \<open>argv\<close> holds all \<^verbatim>\<open>argc\<close>
  strings, the program name first.
\<close>

definition usage :: string where
  "usage = ''Usage: <# of threads 1-64>'' @ [CHR 0x0A]"

datatype startup = Exit_Code int string | Start int

definition main_args :: "(string \<Rightarrow> int) \<Rightarrow> string list \<Rightarrow> startup" where
  "main_args atoi argv =
     (if length argv \<noteq> 2 then Exit_Code 0 usage
      else (let numThreads = atoi (argv ! 1)
            in if numThreads \<le> 0 \<or> numThreads > 64 then Exit_Code 0 usage
               else Start numThreads))"

text \<open>
  \<^verbatim>\<open>for (int i = 1; i<numThreads; i++) { pthread_create(..., th_run, (void*)ids); ids++; }\<close>:
  the arguments handed to the created threads.
\<close>

function create_threads :: "int \<Rightarrow> int \<Rightarrow> int \<Rightarrow> int list" where
  "create_threads numThreads i ids =
     (if i < numThreads then ids # create_threads numThreads (i + 1) (ids + 1) else [])"
  by pat_completeness auto
termination
  by (relation "measure (\<lambda>(numThreads, i, ids). nat (numThreads - i))") auto

declare create_threads.simps [simp del]

text \<open>All calls of \<^verbatim>\<open>th_run\<close>: the created threads, and \<^verbatim>\<open>th_run(0)\<close> on the main thread.\<close>

definition thread_ids :: "int \<Rightarrow> int list" where
  "thread_ids numThreads = create_threads numThreads 1 1 @ [0]"

text \<open>The number of passes of the \<^verbatim>\<open>for\<close> loop that all threads make together.\<close>

definition total_transactions :: "int \<Rightarrow> int" where
  "total_transactions numThreads = (\<Sum>args \<leftarrow> thread_ids numThreads. workload numThreads)"

text \<open>The account table \<^verbatim>\<open>main\<close> builds: \<^verbatim>\<open>Acct temp = {i, INIT_BALANCE}\<close> for each \<open>i\<close>.\<close>

definition init_accts :: "Acct list" where
  "init_accts =
     map (\<lambda>i. \<lparr>acct_addr = of_nat i, acct_value = INIT_BALANCE\<rparr>) [0..<unat NUM_ACCTS]"

text \<open>
  The state when \<^verbatim>\<open>th_run\<close> starts on a thread: the globals as \<^verbatim>\<open>main\<close> leaves them
  and the thread-local variables as they are initialised.
\<close>

definition init_state :: state where
  "init_state =
     \<lparr>accts = init_accts, read_set = [], write_set = [], rv = 0,
      snap_counter = replicate 72 0, seqlock = 0, counter = replicate 72 0,
      tid = 0, htmCount = 0, swCount = 0\<rparr>"

section \<open>Example states\<close>

text \<open>A thread that holds the writeback window: \<^verbatim>\<open>seqlock\<close> is \<open>rv + 1\<close>, odd.\<close>

definition window_held_state :: state where
  "window_held_state = init_state\<lparr>seqlock := 1\<rparr>"

text \<open>A writer whose snapshot is older than a hardware commit of thread 0.\<close>

definition hw_committed_state :: state where
  "hw_committed_state =
     init_state\<lparr>write_set := [\<lparr>acct_addr = 0, acct_value = 950\<rparr>],
                counter := (replicate 72 0)[0 := 1]\<rparr>"

text \<open>A read-only transaction at its commit: one read, no write.\<close>

definition read_only_state :: state where
  "read_only_state = init_state\<lparr>read_set := [\<lparr>acct_addr = 0, acct_value = 1000\<rparr>]\<rparr>"

text \<open>A transaction that has written account 0 twice and account 1 once.\<close>

definition rewritten_state :: state where
  "rewritten_state =
     init_state\<lparr>write_set := [\<lparr>acct_addr = 0, acct_value = 950\<rparr>,
                              \<lparr>acct_addr = 1, acct_value = 1050\<rparr>,
                              \<lparr>acct_addr = 0, acct_value = 900\<rparr>]\<rparr>"

text \<open>A reader whose \<^verbatim>\<open>rv\<close> is older than \<^verbatim>\<open>seqlock\<close>: a writer has committed since.\<close>

definition later_state :: state where
  "later_state = init_state\<lparr>seqlock := 2\<rparr>"

text \<open>A transaction whose read of account 0 no longer matches memory, after a commit elsewhere.\<close>

definition stale_read_state :: state where
  "stale_read_state =
     init_state\<lparr>read_set := [\<lparr>acct_addr = 0, acct_value = 5\<rparr>],
                write_set := [\<lparr>acct_addr = 1, acct_value = 7\<rparr>], seqlock := 2\<rparr>"

text \<open>
  A stand-in for the C library's \<^verbatim>\<open>atoi\<close> in the examples: the value of the leading
  decimal digits of the string (no sign, no leading blanks).
\<close>

fun digits_value :: "int \<Rightarrow> string \<Rightarrow> int" where
  "digits_value acc [] = acc"
| "digits_value acc (c # cs) =
     (if 48 \<le> (of_char c :: nat) \<and> (of_char c :: nat) \<le> 57
      then digits_value (acc * 10 + (int (of_char c) - 48)) cs
      else acc)"

definition atoi_decimal :: "string \<Rightarrow> int" where
  "atoi_decimal str = digits_value 0 str"

text \<open>
  A generator for the examples: it returns the seed and increases it by one, so the
  transfers of one transaction are between the accounts 0 and 1, 2 and 3, up to 18 and 19.
\<close>

definition counting_rand :: rand where
  "counting_rand t = (t, t + 1)"

text \<open>The accounts after one hardware transaction, and after one software transaction.\<close>

definition htm_only_accts :: "Acct list" where
  "htm_only_accts =
     init_accts
      [0 := \<lparr>acct_addr = 0, acct_value = 950\<rparr>, 1 := \<lparr>acct_addr = 1, acct_value = 950\<rparr>,
       2 := \<lparr>acct_addr = 2, acct_value = 950\<rparr>, 3 := \<lparr>acct_addr = 3, acct_value = 950\<rparr>,
       4 := \<lparr>acct_addr = 4, acct_value = 950\<rparr>, 5 := \<lparr>acct_addr = 5, acct_value = 950\<rparr>,
       6 := \<lparr>acct_addr = 6, acct_value = 950\<rparr>, 7 := \<lparr>acct_addr = 7, acct_value = 950\<rparr>,
       8 := \<lparr>acct_addr = 8, acct_value = 950\<rparr>, 9 := \<lparr>acct_addr = 9, acct_value = 950\<rparr>,
       10 := \<lparr>acct_addr = 10, acct_value = 950\<rparr>, 11 := \<lparr>acct_addr = 11, acct_value = 950\<rparr>,
       12 := \<lparr>acct_addr = 12, acct_value = 950\<rparr>, 13 := \<lparr>acct_addr = 13, acct_value = 950\<rparr>,
       14 := \<lparr>acct_addr = 14, acct_value = 950\<rparr>, 15 := \<lparr>acct_addr = 15, acct_value = 950\<rparr>,
       16 := \<lparr>acct_addr = 16, acct_value = 950\<rparr>, 17 := \<lparr>acct_addr = 17, acct_value = 950\<rparr>,
       18 := \<lparr>acct_addr = 18, acct_value = 950\<rparr>, 19 := \<lparr>acct_addr = 19, acct_value = 950\<rparr>]"

definition sw_only_accts :: "Acct list" where
  "sw_only_accts =
     init_accts
      [0 := \<lparr>acct_addr = 0, acct_value = 950\<rparr>, 1 := \<lparr>acct_addr = 1, acct_value = 1050\<rparr>,
       2 := \<lparr>acct_addr = 2, acct_value = 950\<rparr>, 3 := \<lparr>acct_addr = 3, acct_value = 1050\<rparr>,
       4 := \<lparr>acct_addr = 4, acct_value = 950\<rparr>, 5 := \<lparr>acct_addr = 5, acct_value = 1050\<rparr>,
       6 := \<lparr>acct_addr = 6, acct_value = 950\<rparr>, 7 := \<lparr>acct_addr = 7, acct_value = 1050\<rparr>,
       8 := \<lparr>acct_addr = 8, acct_value = 950\<rparr>, 9 := \<lparr>acct_addr = 9, acct_value = 1050\<rparr>,
       10 := \<lparr>acct_addr = 10, acct_value = 950\<rparr>, 11 := \<lparr>acct_addr = 11, acct_value = 1050\<rparr>,
       12 := \<lparr>acct_addr = 12, acct_value = 950\<rparr>, 13 := \<lparr>acct_addr = 13, acct_value = 1050\<rparr>,
       14 := \<lparr>acct_addr = 14, acct_value = 950\<rparr>, 15 := \<lparr>acct_addr = 15, acct_value = 1050\<rparr>,
       16 := \<lparr>acct_addr = 16, acct_value = 950\<rparr>, 17 := \<lparr>acct_addr = 17, acct_value = 1050\<rparr>,
       18 := \<lparr>acct_addr = 18, acct_value = 950\<rparr>, 19 := \<lparr>acct_addr = 19, acct_value = 1050\<rparr>]"

text \<open>
  A generator that keeps the seed between 0 and 1, so that \<^verbatim>\<open>counter[tid]\<close> stays
  inside the array: from seed 0 every transaction picks the accounts 0 and 1.
\<close>

definition toggle_rand :: rand where
  "toggle_rand t = (t, 1 - t)"

text \<open>The state \<^verbatim>\<open>main\<close> sets up, but with account 0 empty: no transfer leaves it.\<close>

definition broke_state :: state where
  "broke_state = init_state\<lparr>accts := init_accts[0 := \<lparr>acct_addr = 0, acct_value = 0\<rparr>]\<rparr>"

section \<open>The spin loop and \<^verbatim>\<open>sw_validate\<close>\<close>

lemma read_seqlock_even_Some:
  assumes "read_seqlock_even s = Some y"
  shows "seqlock s AND 1 = 0 \<and> y = s\<lparr>rv := seqlock s\<rparr>"
  using assms
proof (induction rule: read_seqlock_even.raw_induct [rotated 1, consumes 1])
  case (1 f s y)
  show ?case
  proof (cases "seqlock s AND 1 = 0")
    case True
    with 1(2) show ?thesis by (simp add: Let_def)
  next
    case False
    with 1(2) have "f (s\<lparr>rv := seqlock s\<rparr>) = Some y" by (simp add: Let_def)
    from 1(1) [OF this] have "seqlock s AND 1 = 0" by simp
    with False show ?thesis by simp
  qed
qed

lemma read_seqlock_even_odd: "seqlock s AND 1 \<noteq> 0 \<Longrightarrow> read_seqlock_even s = None"
  using read_seqlock_even_Some [of s] by (cases "read_seqlock_even s") auto

lemma read_seqlock_even_even:
  "seqlock s AND 1 = 0 \<Longrightarrow> read_seqlock_even s = Some (s\<lparr>rv := seqlock s\<rparr>)"
  by (subst read_seqlock_even.simps) (simp add: Let_def)

lemma sw_validate_odd: "seqlock s AND 1 \<noteq> 0 \<Longrightarrow> sw_validate s = None"
  by (subst sw_validate.simps) (simp add: read_seqlock_even_odd)

lemma sw_validate_even:
  "seqlock s AND 1 = 0 \<Longrightarrow> sw_validate s =
     (case read_set_scan (accts s) (read_set s) of
        Scan_Undefined \<Rightarrow> Some Undefined_Behaviour
      | Scan_Abort \<Rightarrow> Some (sw_abort (s\<lparr>rv := seqlock s\<rparr>))
      | Scan_Done \<Rightarrow> Some (Returned () (s\<lparr>rv := seqlock s\<rparr>)))"
  by (subst sw_validate.simps) (simp add: read_seqlock_even_even split: scan.splits)

lemma sw_validate_Returned:
  assumes "sw_validate s = Some (Returned u s1)"
  shows "seqlock s AND 1 = 0 \<and> read_set_scan (accts s) (read_set s) = Scan_Done
         \<and> s1 = s\<lparr>rv := seqlock s\<rparr>"
proof (cases "seqlock s AND 1 = 0")
  case True
  with assms show ?thesis
    by (auto simp: sw_validate_even sw_abort_def split: scan.splits)
next
  case False
  with assms show ?thesis by (simp add: sw_validate_odd)
qed

lemma sw_validate_Aborted:
  assumes "sw_validate s = Some (Aborted s1)"
  shows "seqlock s AND 1 = 0 \<and> read_set_scan (accts s) (read_set s) = Scan_Abort
         \<and> s1 = s\<lparr>rv := seqlock s, read_set := [], write_set := []\<rparr>"
proof (cases "seqlock s AND 1 = 0")
  case True
  with assms show ?thesis
    by (auto simp: sw_validate_even sw_abort_def split: scan.splits)
next
  case False
  with assms show ?thesis by (simp add: sw_validate_odd)
qed

lemma succ_of_even_is_odd: "(w :: 32 word) AND 1 = 0 \<Longrightarrow> (w + 1) AND 1 \<noteq> 0"
  by (simp add: and_one_eq even_iff_mod_2_eq_zero [symmetric])

lemma acquire_window_free:
  "seqlock s = rv s \<Longrightarrow> acquire_window s = Some (Returned () (s\<lparr>seqlock := rv s + 1\<rparr>))"
  by (subst acquire_window.simps) simp

text \<open>
  Claim C1. \<^verbatim>\<open>sw_commit\<close> calls \<^verbatim>\<open>sw_validate\<close> after its compare-and-swap has made
  \<^verbatim>\<open>seqlock\<close> the odd value \<open>rv + 1\<close>. With nobody else writing \<^verbatim>\<open>seqlock\<close>, the
  inner loop \<^verbatim>\<open>do { rv = seqlock; } while (rv & 1)\<close> reads that odd value for ever:
  \<^verbatim>\<open>sw_validate\<close> does not return, and never reaches the read set.
\<close>

theorem sw_validate_in_window:
  "rv s AND 1 = 0 \<Longrightarrow> seqlock s = rv s + 1 \<Longrightarrow> sw_validate s = None"
  using sw_validate_odd [of s] succ_of_even_is_odd [of "rv s"] by simp

theorem sw_validate_in_window_witness:
  "rv window_held_state AND 1 = 0 \<and> seqlock window_held_state = rv window_held_state + 1
   \<and> sw_validate window_held_state = None"
  using sw_validate_in_window [of window_held_state]
  by (simp add: window_held_state_def init_state_def)

section \<open>\<^verbatim>\<open>sw_commit\<close> and \<^verbatim>\<open>sw_begin\<close>\<close>

text \<open>
  Claim C4. A call of \<^verbatim>\<open>sw_commit\<close> with an empty write set returns at once and
  leaves the whole state as it is: \<^verbatim>\<open>seqlock\<close>, \<^verbatim>\<open>counter\<close> and the accounts are
  unchanged, and so is the read set, which is not cleared.
\<close>

theorem sw_commit_read_only:
  "write_set s = [] \<Longrightarrow> sw_commit s = Some (Returned () s)"
  by (simp add: sw_commit_def)

theorem sw_commit_read_only_witness:
  "write_set read_only_state = []
   \<and> sw_commit read_only_state = Some (Returned () read_only_state)
   \<and> read_set read_only_state \<noteq> []"
  using sw_commit_read_only [of read_only_state]
  by (simp add: read_only_state_def init_state_def)

text \<open>
  Claim C5, as the code has it. \<^verbatim>\<open>sw_begin\<close> returns exactly when the \<^verbatim>\<open>seqlock\<close> it
  reads is even; then \<^verbatim>\<open>rv\<close> is that even value, \<^verbatim>\<open>snap_counter\<close> is a copy of the
  whole \<^verbatim>\<open>counter\<close> array, and nothing else has changed: the read set and the write
  set are what they were before the call.
\<close>

theorem sw_begin_returns:
  "sw_begin s = Some s' \<longleftrightarrow>
     seqlock s AND 1 = 0 \<and> s' = s\<lparr>rv := seqlock s, snap_counter := counter s\<rparr>"
  by (cases "seqlock s AND 1 = 0")
     (auto simp: sw_begin_def read_seqlock_even_even read_seqlock_even_odd)

theorem sw_begin_returns_witness:
  "sw_begin read_only_state = Some (read_only_state\<lparr>rv := 0, snap_counter := replicate 72 0\<rparr>)"
  using sw_begin_returns
    [of read_only_state "read_only_state\<lparr>rv := 0, snap_counter := replicate 72 0\<rparr>"]
  by (simp add: read_only_state_def init_state_def)

text \<open>
  Claim C5, as the spec states it, fails: a read set that is not empty when \<^verbatim>\<open>sw_begin\<close>
  is called is not empty when it returns.
\<close>

theorem sw_begin_keeps_read_set:
  "map_option read_set (sw_begin read_only_state) = Some [\<lparr>acct_addr = 0, acct_value = 1000\<rparr>]"
  by (simp add: sw_begin_def read_seqlock_even_even read_only_state_def init_state_def)

text \<open>
  Claim C7. When a counter slot differs from its snapshot, \<^verbatim>\<open>sw_commit\<close> acquires the
  window and then calls \<^verbatim>\<open>sw_validate\<close> under the odd \<^verbatim>\<open>seqlock\<close> it has just written:
  the call does not return, so the writeback and the release are never reached.
\<close>

theorem sw_commit_counter_changed:
  assumes "write_set s \<noteq> []" and "seqlock s = rv s" and "rv s AND 1 = 0"
    and "counter_changed (snap_counter s) (counter s)"
  shows "sw_commit s = None"
proof -
  let ?s1 = "s\<lparr>seqlock := rv s + 1\<rparr>"
  have "sw_validate ?s1 = None"
    using assms(3) by (intro sw_validate_odd) (simp add: succ_of_even_is_odd)
  then show ?thesis
    using assms by (simp add: sw_commit_def acquire_window_free)
qed

theorem sw_commit_counter_changed_witness:
  "write_set hw_committed_state \<noteq> [] \<and> seqlock hw_committed_state = rv hw_committed_state
   \<and> rv hw_committed_state AND 1 = 0
   \<and> counter_changed (snap_counter hw_committed_state) (counter hw_committed_state)
   \<and> sw_commit hw_committed_state = None"
proof -
  have c: "counter_changed (snap_counter hw_committed_state) (counter hw_committed_state)"
    unfolding counter_changed_def list_ex_iff
    by (rule bexI [of _ 0]) (simp_all add: hw_committed_state_def init_state_def)
  show ?thesis
    using sw_commit_counter_changed [of hw_committed_state] c
    by (simp add: hw_committed_state_def init_state_def)
qed

section \<open>\<^verbatim>\<open>sw_read\<close>\<close>

lemma sw_read_loop_quiet:
  "rv s = seqlock s \<Longrightarrow> sw_read_loop a v s =
     Some (Returned v (s\<lparr>read_set := read_set s @ [\<lparr>acct_addr = a, acct_value = v\<rparr>]\<rparr>))"
  by (subst sw_read_loop.simps) simp

lemma sw_read_loop_changed:
  assumes "rv s \<noteq> seqlock s"
  shows "sw_read_loop a v s =
     Option.bind (sw_validate s) (\<lambda>r.
       case r of
         Aborted s1 \<Rightarrow> Some (Aborted s1)
       | Undefined_Behaviour \<Rightarrow> Some Undefined_Behaviour
       | Returned _ s1 \<Rightarrow>
           (case acct_at (accts s1) a of
              None \<Rightarrow> Some Undefined_Behaviour
            | Some c \<Rightarrow>
                Some (Returned (acct_value c)
                  (s1\<lparr>read_set := read_set s1 @ [\<lparr>acct_addr = a, acct_value = acct_value c\<rparr>]\<rparr>))))"
proof (cases "sw_validate s")
  case None
  with assms show ?thesis by (subst sw_read_loop.simps) simp
next
  case (Some r)
  show ?thesis
  proof (cases r)
    case (Returned u s1)
    with Some have "s1 = s\<lparr>rv := seqlock s\<rparr>" using sw_validate_Returned by blast
    then have "rv s1 = seqlock s1" by simp
    then show ?thesis using assms Some Returned
      by (subst sw_read_loop.simps) (simp add: sw_read_loop_quiet split: option.splits)
  next
    case (Aborted s1)
    with assms Some show ?thesis by (subst sw_read_loop.simps) simp
  next
    case Undefined_Behaviour
    with assms Some show ?thesis by (subst sw_read_loop.simps) simp
  qed
qed

lemma find_in_append:
  "find P (xs @ ys) = (case find P xs of None \<Rightarrow> find P ys | Some x \<Rightarrow> Some x)"
  by (induction xs) auto

lemma find_last_write:
  assumes "ws = ws1 @ e # ws2" and "acct_addr e = a" and "\<forall>x\<in>set ws2. acct_addr x \<noteq> a"
  shows "find (\<lambda>e. acct_addr e = a) (rev ws) = Some e"
proof -
  have "find (\<lambda>e. acct_addr e = a) (rev ws2) = None"
    using assms(3) by (simp add: find_None_iff)
  with assms(1,2) show ?thesis by (simp add: find_in_append)
qed

lemma find_no_write:
  "\<forall>x\<in>set ws. acct_addr x \<noteq> a \<Longrightarrow> find (\<lambda>e. acct_addr e = a) (rev ws) = None"
  by (simp add: find_None_iff)

lemma length_init_accts: "length init_accts = 1000"
  by (simp add: init_accts_def NUM_ACCTS_def)

lemma acct_at_init_accts:
  "0 \<le> sint a \<Longrightarrow> sint a < 1000 \<Longrightarrow>
     acct_at init_accts a = Some \<lparr>acct_addr = a, acct_value = 1000\<rparr>"
  by (simp add: acct_at_def init_accts_def NUM_ACCTS_def INIT_BALANCE_def)

text \<open>
  Claim C6. \<^verbatim>\<open>sw_read(addr)\<close> returns the value of the last write-set entry for
  \<open>addr\<close>, if there is one, and leaves the state (memory, read set) as it is.
  Otherwise, for an \<open>addr\<close> inside \<^verbatim>\<open>accts\<close>: when \<^verbatim>\<open>rv\<close> equals \<^verbatim>\<open>seqlock\<close> it
  returns the value in memory and appends \<open>(addr, value)\<close> to the read set; when they
  differ it runs \<^verbatim>\<open>sw_validate\<close>, and if that returns, loads the value again, appends
  \<open>(addr, value)\<close> to the read set and returns that value.
\<close>

theorem sw_read_behaviour:
  "(write_set s = ws1 @ e # ws2 \<and> acct_addr e = a \<and> (\<forall>x\<in>set ws2. acct_addr x \<noteq> a)
      \<longrightarrow> sw_read a s = Some (Returned (acct_value e) s))
   \<and> ((\<forall>x\<in>set (write_set s). acct_addr x \<noteq> a) \<and> acct_at (accts s) a = Some c
        \<and> rv s = seqlock s
      \<longrightarrow> sw_read a s =
            Some (Returned (acct_value c)
              (s\<lparr>read_set := read_set s @ [\<lparr>acct_addr = a, acct_value = acct_value c\<rparr>]\<rparr>)))
   \<and> ((\<forall>x\<in>set (write_set s). acct_addr x \<noteq> a) \<and> acct_at (accts s) a = Some c
        \<and> rv s \<noteq> seqlock s
      \<longrightarrow> sw_read a s =
            Option.bind (sw_validate s) (\<lambda>r.
              case r of
                Aborted s1 \<Rightarrow> Some (Aborted s1)
              | Undefined_Behaviour \<Rightarrow> Some Undefined_Behaviour
              | Returned _ s1 \<Rightarrow>
                  (case acct_at (accts s1) a of
                     None \<Rightarrow> Some Undefined_Behaviour
                   | Some c1 \<Rightarrow>
                       Some (Returned (acct_value c1)
                         (s1\<lparr>read_set := read_set s1 @
                                [\<lparr>acct_addr = a, acct_value = acct_value c1\<rparr>]\<rparr>)))))"
proof (intro conjI impI)
  assume "write_set s = ws1 @ e # ws2 \<and> acct_addr e = a \<and> (\<forall>x\<in>set ws2. acct_addr x \<noteq> a)"
  then have "find (\<lambda>e. acct_addr e = a) (rev (write_set s)) = Some e"
    using find_last_write by blast
  then show "sw_read a s = Some (Returned (acct_value e) s)"
    by (simp add: sw_read_def)
next
  assume h: "(\<forall>x\<in>set (write_set s). acct_addr x \<noteq> a) \<and> acct_at (accts s) a = Some c
     \<and> rv s = seqlock s"
  then have "find (\<lambda>e. acct_addr e = a) (rev (write_set s)) = None"
    using find_no_write by blast
  with h show "sw_read a s =
     Some (Returned (acct_value c)
       (s\<lparr>read_set := read_set s @ [\<lparr>acct_addr = a, acct_value = acct_value c\<rparr>]\<rparr>))"
    by (simp add: sw_read_def sw_read_loop_quiet)
next
  assume h: "(\<forall>x\<in>set (write_set s). acct_addr x \<noteq> a) \<and> acct_at (accts s) a = Some c
     \<and> rv s \<noteq> seqlock s"
  then have "find (\<lambda>e. acct_addr e = a) (rev (write_set s)) = None"
    using find_no_write by blast
  with h show "sw_read a s =
            Option.bind (sw_validate s) (\<lambda>r.
              case r of
                Aborted s1 \<Rightarrow> Some (Aborted s1)
              | Undefined_Behaviour \<Rightarrow> Some Undefined_Behaviour
              | Returned _ s1 \<Rightarrow>
                  (case acct_at (accts s1) a of
                     None \<Rightarrow> Some Undefined_Behaviour
                   | Some c1 \<Rightarrow>
                       Some (Returned (acct_value c1)
                         (s1\<lparr>read_set := read_set s1 @
                                [\<lparr>acct_addr = a, acct_value = acct_value c1\<rparr>]\<rparr>))))"
    by (simp add: sw_read_def sw_read_loop_changed)
qed

theorem sw_read_behaviour_witness:
  "sw_read 0 rewritten_state = Some (Returned 900 rewritten_state)
   \<and> sw_read 0 init_state =
       Some (Returned 1000 (init_state\<lparr>read_set := [\<lparr>acct_addr = 0, acct_value = 1000\<rparr>]\<rparr>))
   \<and> sw_read 0 later_state =
       Some (Returned 1000
         (later_state\<lparr>rv := 2, read_set := [\<lparr>acct_addr = 0, acct_value = 1000\<rparr>]\<rparr>))"
proof (intro conjI)
  show "sw_read 0 rewritten_state = Some (Returned 900 rewritten_state)"
    using sw_read_behaviour
      [of rewritten_state "[\<lparr>acct_addr = 0, acct_value = 950\<rparr>, \<lparr>acct_addr = 1, acct_value = 1050\<rparr>]"
          "\<lparr>acct_addr = 0, acct_value = 900\<rparr>" "[]" 0]
    by (simp add: rewritten_state_def init_state_def)
next
  have a: "acct_at (accts init_state) 0 = Some \<lparr>acct_addr = 0, acct_value = 1000\<rparr>"
    by (simp add: init_state_def acct_at_init_accts)
  show "sw_read 0 init_state =
       Some (Returned 1000 (init_state\<lparr>read_set := [\<lparr>acct_addr = 0, acct_value = 1000\<rparr>]\<rparr>))"
    using sw_read_behaviour [of init_state _ _ _ 0 "\<lparr>acct_addr = 0, acct_value = 1000\<rparr>"] a
    by (simp add: init_state_def)
next
  have a: "acct_at (accts later_state) 0 = Some \<lparr>acct_addr = 0, acct_value = 1000\<rparr>"
    by (simp add: later_state_def init_state_def acct_at_init_accts)
  have v: "sw_validate later_state = Some (Returned () (later_state\<lparr>rv := 2\<rparr>))"
    by (simp add: sw_validate_even later_state_def init_state_def)
  show "sw_read 0 later_state =
       Some (Returned 1000
         (later_state\<lparr>rv := 2, read_set := [\<lparr>acct_addr = 0, acct_value = 1000\<rparr>]\<rparr>))"
    using sw_read_behaviour [of later_state _ _ _ 0 "\<lparr>acct_addr = 0, acct_value = 1000\<rparr>"] a v
    by (simp add: later_state_def init_state_def acct_at_init_accts)
qed

lemma acquire_window_busy:
  assumes "seqlock s \<noteq> rv s"
  shows "acquire_window s =
     (if seqlock s AND 1 \<noteq> 0 then None
      else case read_set_scan (accts s) (read_set s) of
             Scan_Undefined \<Rightarrow> Some Undefined_Behaviour
           | Scan_Abort \<Rightarrow> Some (sw_abort (s\<lparr>rv := seqlock s\<rparr>))
           | Scan_Done \<Rightarrow> Some (Returned () (s\<lparr>rv := seqlock s, seqlock := seqlock s + 1\<rparr>)))"
proof (cases "seqlock s AND 1 = 0")
  case False
  with assms show ?thesis
    by (subst acquire_window.simps) (simp add: sw_validate_odd)
next
  case True
  with assms show ?thesis
    by (subst acquire_window.simps)
       (simp add: sw_validate_even acquire_window_free sw_abort_def split: scan.splits)
qed

lemma acquire_window_Aborted:
  assumes "acquire_window s = Some (Aborted s')"
  shows "s' = s\<lparr>rv := seqlock s, read_set := [], write_set := []\<rparr>"
proof (cases "seqlock s = rv s")
  case True
  with assms show ?thesis by (simp add: acquire_window_free)
next
  case False
  with assms show ?thesis
    by (auto simp: acquire_window_busy sw_abort_def split: if_splits scan.splits)
qed

lemma acquire_window_Returned:
  assumes "acquire_window s = Some (Returned u s1)" and "rv s AND 1 = 0"
  shows "seqlock s AND 1 = 0 \<and> s1 = s\<lparr>rv := seqlock s, seqlock := seqlock s + 1\<rparr>"
proof (cases "seqlock s = rv s")
  case True
  with assms show ?thesis by (simp add: acquire_window_free)
next
  case False
  with assms show ?thesis
    by (auto simp: acquire_window_busy sw_abort_def split: if_splits scan.splits)
qed

lemma sw_commit_Aborted:
  assumes "sw_commit s = Some (Aborted s')" and "rv s AND 1 = 0"
  shows "s' = s\<lparr>rv := seqlock s, read_set := [], write_set := []\<rparr>"
proof -
  from assms(1) have ws: "write_set s \<noteq> []"
    by (auto simp: sw_commit_def split: if_splits)
  show ?thesis
  proof (cases "acquire_window s")
    case None
    with assms ws show ?thesis by (simp add: sw_commit_def)
  next
    case (Some r)
    show ?thesis
    proof (cases r)
      case (Returned u s1)
      with Some assms(2) have ev: "seqlock s AND 1 = 0"
        and s1: "s1 = s\<lparr>rv := seqlock s, seqlock := seqlock s + 1\<rparr>"
        using acquire_window_Returned by blast+
      have "seqlock s1 AND 1 \<noteq> 0" using ev s1 by (simp add: succ_of_even_is_odd)
      then have "sw_validate s1 = None" by (rule sw_validate_odd)
      with assms(1) ws Some Returned show ?thesis
        by (auto simp: sw_commit_def split: if_splits option.splits)
    next
      case (Aborted s1)
      with assms(1) ws Some have "s1 = s'" by (simp add: sw_commit_def)
      with Some Aborted show ?thesis using acquire_window_Aborted by blast
    next
      case Undefined_Behaviour
      with assms(1) ws Some show ?thesis by (simp add: sw_commit_def)
    qed
  qed
qed

lemma sw_read_Aborted:
  assumes "sw_read a s = Some (Aborted s')"
  shows "s' = s\<lparr>rv := seqlock s, read_set := [], write_set := []\<rparr>"
proof -
  from assms have "\<exists>v. sw_read_loop a v s = Some (Aborted s')"
    by (auto simp: sw_read_def split: option.splits)
  then obtain v where l: "sw_read_loop a v s = Some (Aborted s')" by blast
  have ne: "rv s \<noteq> seqlock s"
    using l by (auto simp: sw_read_loop_quiet)
  from l ne have "sw_validate s = Some (Aborted s')"
    by (cases "sw_validate s")
       (auto simp: sw_read_loop_changed split: outcome.splits option.splits)
  then show ?thesis using sw_validate_Aborted by blast
qed

lemma sw_read_Returned:
  assumes "sw_read a s = Some (Returned v s')"
  shows "\<exists>rs. s' = s\<lparr>rv := seqlock s, read_set := rs\<rparr> \<or> s' = s\<lparr>read_set := rs\<rparr>"
proof (cases "find (\<lambda>e. acct_addr e = a) (rev (write_set s))")
  case (Some e)
  with assms have "s' = s\<lparr>read_set := read_set s\<rparr>" by (simp add: sw_read_def)
  then show ?thesis by blast
next
  case None
  with assms have "\<exists>v0. sw_read_loop a v0 s = Some (Returned v s')"
    by (auto simp: sw_read_def split: option.splits)
  then obtain v0 where l: "sw_read_loop a v0 s = Some (Returned v s')" by blast
  show ?thesis
  proof (cases "rv s = seqlock s")
    case True
    with l show ?thesis by (auto simp: sw_read_loop_quiet)
  next
    case False
    with l obtain u s1 where v: "sw_validate s = Some (Returned u s1)"
      by (cases "sw_validate s")
         (auto simp: sw_read_loop_changed split: outcome.splits option.splits)
    then have s1: "s1 = s\<lparr>rv := seqlock s\<rparr>" using sw_validate_Returned by blast
    from l False v s1 show ?thesis
      by (auto simp: sw_read_loop_changed split: option.splits)
  qed
qed

lemma pick_accounts_result:
  assumes "pick_accounts rand_r_32 r1 r2 s = Some y"
  shows "fst y \<noteq> fst (snd y) \<and> (\<exists>t. snd (snd y) = s\<lparr>tid := t\<rparr>)
         \<and> (r1 = r2 \<or> (r1 < 1000 \<and> r2 < 1000) \<longrightarrow> fst y < 1000 \<and> fst (snd y) < 1000)"
  using assms
proof (induction rule: pick_accounts.raw_induct [rotated 1, consumes 1])
  case (1 f g r1 r2 s y)
  show ?case
  proof (cases "r1 = r2")
    case False
    with 1(2) have y: "y = (r1, r2, s)" by simp
    have "s = s\<lparr>tid := tid s\<rparr>" by simp
    then have "\<exists>t. s = s\<lparr>tid := t\<rparr>" by (rule exI)
    with y False show ?thesis by simp
  next
    case True
    let ?d1 = "g (tid s)" let ?d2 = "g (snd ?d1)"
    from True 1(2) have
      "f g (fst ?d1 mod NUM_ACCTS) (fst ?d2 mod NUM_ACCTS) (s\<lparr>tid := snd ?d2\<rparr>) = Some y"
      by (simp add: Let_def)
    from 1(1) [OF this] have ab: "fst y \<noteq> fst (snd y)"
      and st: "\<exists>t. snd (snd y) = s\<lparr>tid := snd ?d2\<rparr>\<lparr>tid := t\<rparr>"
      and rg: "fst ?d1 mod NUM_ACCTS < 1000 \<and> fst ?d2 mod NUM_ACCTS < 1000
                 \<longrightarrow> fst y < 1000 \<and> fst (snd y) < 1000"
      by blast+
    have "fst ?d1 mod NUM_ACCTS < 1000" "fst ?d2 mod NUM_ACCTS < 1000"
      by (simp_all add: NUM_ACCTS_def word_mod_less_divisor)
    with ab st rg show ?thesis by auto
  qed
qed

lemma pick_accounts_Some:
  assumes "pick_accounts rand_r_32 0 0 s = Some (a, b, s')"
  shows "a \<noteq> b" and "\<exists>t. s' = s\<lparr>tid := t\<rparr>" and "a < 1000" and "b < 1000"
  using pick_accounts_result [OF assms] by auto

lemma sw_transfers_Aborted:
  "sw_transfers rand_r_32 n s = Some (Aborted s') \<Longrightarrow>
     read_set s' = [] \<and> write_set s' = [] \<and> accts s' = accts s
     \<and> seqlock s' = seqlock s \<and> counter s' = counter s"
proof (induction n arbitrary: s)
  case 0
  then show ?case by simp
next
  case (Suc n)
  from Suc.prems obtain r1 r2 s1 where p: "pick_accounts rand_r_32 0 0 s = Some (r1, r2, s1)"
    by (cases "pick_accounts rand_r_32 0 0 s") auto
  then obtain t where s1: "s1 = s\<lparr>tid := t\<rparr>" using pick_accounts_Some(2) by blast
  from Suc.prems p obtain ra where ra: "sw_read r1 s1 = Some ra"
    by (cases "sw_read r1 s1") auto
  show ?case
  proof (cases ra)
    case (Aborted s2)
    with Suc.prems p ra have "s2 = s'" by simp
    with ra Aborted s1 show ?thesis using sw_read_Aborted [of r1 s1 s'] by simp
  next
    case Undefined_Behaviour
    with Suc.prems p ra show ?thesis by simp
  next
    case (Returned a1 s2)
    with ra obtain rs where s2: "s2 = s1\<lparr>rv := seqlock s1, read_set := rs\<rparr> \<or> s2 = s1\<lparr>read_set := rs\<rparr>"
      using sw_read_Returned by blast
    show ?thesis
    proof (cases "a1 <s TRFR_AMT")
      case True
      with Suc.prems p ra Returned show ?thesis by simp
    next
      case False
      with Suc.prems p ra Returned obtain rb where rb: "sw_read r2 s2 = Some rb"
        by (cases "sw_read r2 s2") auto
      show ?thesis
      proof (cases rb)
        case (Aborted s3)
        with Suc.prems p ra Returned False rb have "s3 = s'" by simp
        with rb Aborted s1 s2 show ?thesis using sw_read_Aborted [of r2 s2 s'] by auto
      next
        case Undefined_Behaviour
        with Suc.prems p ra Returned False rb show ?thesis by simp
      next
        case rb_ret: (Returned a2 s3)
        with rb obtain rs' where s3: "s3 = s2\<lparr>rv := seqlock s2, read_set := rs'\<rparr> \<or> s3 = s2\<lparr>read_set := rs'\<rparr>"
          using sw_read_Returned by blast
        let ?s4 = "sw_write r2 (a2 + TRFR_AMT) (sw_write r1 (a1 - TRFR_AMT) s3)"
        from Suc.prems p ra Returned False rb rb_ret
        have "sw_transfers rand_r_32 n ?s4 = Some (Aborted s')" by simp
        from Suc.IH [OF this] s1 s2 s3 show ?thesis by (auto simp: sw_write_def)
      qed
    qed
  qed
qed

section \<open>Abort\<close>

lemma read_set_scan_Abort:
  "read_set_scan m rs = Scan_Abort \<Longrightarrow>
     \<exists>e\<in>set rs. \<exists>c. acct_at m (acct_addr e) = Some c \<and> acct_value e \<noteq> acct_value c"
  by (induction rs) (auto split: option.splits if_splits)

lemma stale_validate:
  "sw_validate stale_read_state =
     Some (Aborted (stale_read_state\<lparr>rv := 2, read_set := [], write_set := []\<rparr>))"
  by (simp add: sw_validate_even stale_read_state_def init_state_def acct_at_init_accts sw_abort_def)

text \<open>
  Claim C8. When \<^verbatim>\<open>sw_validate\<close>, \<^verbatim>\<open>sw_read\<close>, \<^verbatim>\<open>sw_commit\<close> (entered with an even
  \<^verbatim>\<open>rv\<close>, as \<^verbatim>\<open>sw_begin\<close> and \<^verbatim>\<open>sw_validate\<close> leave it) or the transfer loop of the
  software transaction throws the abort, the read set and the write set are empty and
  the accounts, \<^verbatim>\<open>seqlock\<close> and \<^verbatim>\<open>counter\<close> are as they were at the call; validation
  aborts only on a read-set entry whose value differs from memory; and \<^verbatim>\<open>sw_write\<close>
  only appends to the write set.
\<close>

theorem software_abort_leaves_no_effect:
  "(sw_validate s = Some (Aborted s') \<or> sw_read a s = Some (Aborted s')
      \<or> (rv s AND 1 = 0 \<and> sw_commit s = Some (Aborted s'))
      \<or> sw_transfers rand_r_32 n s = Some (Aborted s')
      \<longrightarrow> read_set s' = [] \<and> write_set s' = [] \<and> accts s' = accts s
          \<and> seqlock s' = seqlock s \<and> counter s' = counter s)
   \<and> (sw_validate s = Some (Aborted s')
      \<longrightarrow> (\<exists>e\<in>set (read_set s). \<exists>c. acct_at (accts s) (acct_addr e) = Some c
                \<and> acct_value e \<noteq> acct_value c))
   \<and> sw_write a v s = s\<lparr>write_set := write_set s @ [\<lparr>acct_addr = a, acct_value = v\<rparr>]\<rparr>"
proof -
  have 1: "read_set s' = [] \<and> write_set s' = [] \<and> accts s' = accts s
          \<and> seqlock s' = seqlock s \<and> counter s' = counter s"
    if h: "sw_validate s = Some (Aborted s') \<or> sw_read a s = Some (Aborted s')
      \<or> (rv s AND 1 = 0 \<and> sw_commit s = Some (Aborted s'))
      \<or> sw_transfers rand_r_32 n s = Some (Aborted s')"
  proof -
    from h consider (v) "sw_validate s = Some (Aborted s')" | (r) "sw_read a s = Some (Aborted s')"
      | (c) "rv s AND 1 = 0" "sw_commit s = Some (Aborted s')"
      | (t) "sw_transfers rand_r_32 n s = Some (Aborted s')" by blast
    then show ?thesis
    proof cases
      case v
      then show ?thesis using sw_validate_Aborted [of s s'] by simp
    next
      case r
      then show ?thesis using sw_read_Aborted [of a s s'] by simp
    next
      case c
      then show ?thesis using sw_commit_Aborted [of s s'] by simp
    next
      case t
      then show ?thesis by (rule sw_transfers_Aborted)
    qed
  qed
  have 2: "\<exists>e\<in>set (read_set s). \<exists>c. acct_at (accts s) (acct_addr e) = Some c
                \<and> acct_value e \<noteq> acct_value c"
    if "sw_validate s = Some (Aborted s')"
  proof -
    from that have "read_set_scan (accts s) (read_set s) = Scan_Abort"
      using sw_validate_Aborted by blast
    then show ?thesis by (rule read_set_scan_Abort)
  qed
  have 3: "sw_write a v s = s\<lparr>write_set := write_set s @ [\<lparr>acct_addr = a, acct_value = v\<rparr>]\<rparr>"
    by (simp add: sw_write_def)
  from 1 2 3 show ?thesis by blast
qed

theorem software_abort_leaves_no_effect_witness:
  "sw_validate stale_read_state =
     Some (Aborted (stale_read_state\<lparr>rv := 2, read_set := [], write_set := []\<rparr>))
   \<and> sw_read 2 stale_read_state =
     Some (Aborted (stale_read_state\<lparr>rv := 2, read_set := [], write_set := []\<rparr>))
   \<and> rv stale_read_state AND 1 = 0
   \<and> sw_commit stale_read_state =
     Some (Aborted (stale_read_state\<lparr>rv := 2, read_set := [], write_set := []\<rparr>))
   \<and> accts (stale_read_state\<lparr>rv := 2, read_set := [], write_set := []\<rparr>) = accts stale_read_state
   \<and> (\<exists>e\<in>set (read_set stale_read_state). \<exists>c.
         acct_at (accts stale_read_state) (acct_addr e) = Some c \<and> acct_value e \<noteq> acct_value c)"
proof -
  let ?s' = "stale_read_state\<lparr>rv := 2, read_set := [], write_set := []\<rparr>"
  have r: "sw_read 2 stale_read_state = Some (Aborted ?s')"
    using stale_validate
    by (simp add: sw_read_def sw_read_loop_changed stale_read_state_def init_state_def
        acct_at_init_accts)
  have c: "sw_commit stale_read_state = Some (Aborted ?s')"
    by (simp add: sw_commit_def acquire_window_busy stale_read_state_def init_state_def
        acct_at_init_accts sw_abort_def)
  have e: "rv stale_read_state AND 1 = 0"
    by (simp add: stale_read_state_def init_state_def)
  from software_abort_leaves_no_effect [where s = stale_read_state and s' = ?s' and a = 2]
    stale_validate r c e
  show ?thesis by simp
qed

section \<open>Arguments and threads of \<^verbatim>\<open>main\<close>\<close>

text \<open>
  Claim C9, as the code has it. When the argument count is not 2 (the thread count is
  missing, or there are more arguments), or \<^verbatim>\<open>atoi\<close> of the argument is not
  positive or is greater than 64, \<^verbatim>\<open>main\<close> prints the usage line and calls
  \<^verbatim>\<open>exit(0)\<close>: the exit code is zero.
\<close>

theorem main_args_usage:
  "length argv \<noteq> 2 \<or> atoi (argv ! 1) \<le> 0 \<or> atoi (argv ! 1) > 64 \<Longrightarrow>
     main_args atoi argv = Exit_Code 0 usage"
  by (auto simp: main_args_def Let_def)

theorem main_args_usage_witness:
  "atoi_decimal ([''hynorec'', ''65''] ! 1) > 64
   \<and> main_args atoi_decimal [''hynorec'', ''65''] = Exit_Code 0 usage"
  using main_args_usage [of "[''hynorec'', ''65'']" atoi_decimal]
  by (simp add: atoi_decimal_def)

text \<open>
  Claim C9, as the spec states it, fails: with the argument missing, zero or 65 the exit
  code is 0, not a non-zero value.
\<close>

theorem main_args_exit_zero:
  "main_args atoi_decimal [''hynorec''] = Exit_Code 0 usage
   \<and> main_args atoi_decimal [''hynorec'', ''0''] = Exit_Code 0 usage
   \<and> main_args atoi_decimal [''hynorec'', ''65''] = Exit_Code 0 usage"
  by (simp add: main_args_def atoi_decimal_def)

lemma main_args_start:
  "main_args atoi_decimal [''hynorec'', ''3''] = Start 3"
  by (simp add: main_args_def atoi_decimal_def)

lemma create_threads_eq:
  "create_threads n i ids = map (\<lambda>k. ids + int k) [0..<nat (n - i)]"
proof (induction n i ids rule: create_threads.induct)
  case (1 n i ids)
  show ?case
  proof (cases "i < n")
    case False
    then show ?thesis by (subst create_threads.simps) simp
  next
    case True
    then have "nat (n - i) = Suc (nat (n - (i + 1)))" by simp
    then have "[0..<nat (n - i)] = 0 # map Suc [0..<nat (n - (i + 1))]"
      by (simp add: upt_conv_Cons map_Suc_upt del: upt_Suc)
    with True 1 show ?thesis by (subst create_threads.simps) (simp add: comp_def)
  qed
qed

lemma thread_ids_eq: "thread_ids n = map int [1..<nat n] @ [0]"
proof -
  have "map (\<lambda>k. 1 + int k) [0..<nat (n - 1)] = map int (map Suc [0..<nat (n - 1)])"
    by simp
  also have "map Suc [0..<nat (n - 1)] = [1..<nat n]"
    by (cases "n \<ge> 1") (simp_all add: map_Suc_upt Suc_nat_eq_nat_zadd1 nat_diff_distrib')
  finally show ?thesis by (simp add: thread_ids_def create_threads_eq)
qed

lemma length_thread_ids: "1 \<le> n \<Longrightarrow> length (thread_ids n) = nat n"
  by (simp add: thread_ids_eq)

lemma workload_pos: "0 < n \<Longrightarrow> workload n = 100000 div n"
  by (simp add: workload_def NUM_TXN_def signed_divide_int_def sgn_if)

lemma total_transactions_eq: "1 \<le> n \<Longrightarrow> total_transactions n = n * (100000 div n)"
  by (simp add: total_transactions_def sum_list_triv length_thread_ids workload_pos)

section \<open>The dispatcher and the two transaction bodies\<close>

lemma pick_accounts_counting:
  "tid s mod 1000 \<noteq> (tid s + 1) mod 1000 \<Longrightarrow>
     pick_accounts counting_rand 0 0 s =
       Some (tid s mod 1000, (tid s + 1) mod 1000, s\<lparr>tid := tid s + 2\<rparr>)"
  apply (subst pick_accounts.simps)
  apply (simp add: Let_def counting_rand_def NUM_ACCTS_def)
  apply (subst pick_accounts.simps)
  apply (simp add: add.assoc)
  done

lemma nth_init_accts:
  "i < 1000 \<Longrightarrow> init_accts ! i = \<lparr>acct_addr = of_nat i, acct_value = 1000\<rparr>"
  by (simp add: init_accts_def NUM_ACCTS_def INIT_BALANCE_def)

lemma counter_unchanged: "\<not> counter_changed c c"
  by (simp add: counter_changed_def list_ex_iff)

lemma acct_at_inside:
  "0 \<le> sint a \<Longrightarrow> nat (sint a) < length m \<Longrightarrow> acct_at m a = Some (m ! nat (sint a))"
  by (simp add: acct_at_def)

lemma acct_store_inside:
  "0 \<le> sint a \<Longrightarrow> nat (sint a) < length m \<Longrightarrow>
     acct_store m a v = Some (m[nat (sint a) := (m ! nat (sint a))\<lparr>acct_value := v\<rparr>])"
  by (simp add: acct_store_def)

lemma hw_transfers_numeral:
  "hw_transfers g (numeral k) s =
     Option.bind (pick_accounts g 0 0 s) (\<lambda>(r1, r2, s1).
       case acct_at (accts s1) r1 of
         None \<Rightarrow> Some Undefined_Behaviour
       | Some c1 \<Rightarrow>
           if acct_value c1 <s TRFR_AMT then Some (Returned () s1)
           else
             (case acct_at (accts s1) r2 of
                None \<Rightarrow> Some Undefined_Behaviour
              | Some c2 \<Rightarrow>
                  (case acct_store (accts s1) r1 (acct_value c1 - TRFR_AMT) of
                     None \<Rightarrow> Some Undefined_Behaviour
                   | Some m1 \<Rightarrow>
                       (case acct_store m1 r2 (acct_value c2 - TRFR_AMT) of
                          None \<Rightarrow> Some Undefined_Behaviour
                        | Some m2 \<Rightarrow> hw_transfers g (pred_numeral k) (s1\<lparr>accts := m2\<rparr>)))))"
  by (simp add: numeral_eq_Suc)

lemma sw_transfers_numeral:
  "sw_transfers g (numeral k) s =
     Option.bind (pick_accounts g 0 0 s) (\<lambda>(r1, r2, s1).
       Option.bind (sw_read r1 s1) (\<lambda>ra.
         case ra of
           Aborted s2 \<Rightarrow> Some (Aborted s2)
         | Undefined_Behaviour \<Rightarrow> Some Undefined_Behaviour
         | Returned a1 s2 \<Rightarrow>
             if a1 <s TRFR_AMT then Some (Returned () s2)
             else Option.bind (sw_read r2 s2) (\<lambda>rb.
               case rb of
                 Aborted s3 \<Rightarrow> Some (Aborted s3)
               | Undefined_Behaviour \<Rightarrow> Some Undefined_Behaviour
               | Returned a2 s3 \<Rightarrow>
                   sw_transfers g (pred_numeral k)
                     (sw_write r2 (a2 + TRFR_AMT) (sw_write r1 (a1 - TRFR_AMT) s3)))))"
  by (simp add: numeral_eq_Suc)

lemma hw_region_counting:
  "hw_region counting_rand init_state =
     Some (Returned ()
       (init_state\<lparr>accts := htm_only_accts, counter := (replicate 72 0)[20 := 1], tid := 20\<rparr>))"
  by (simp add: hw_region_def hw_transfers_numeral init_state_def pick_accounts_counting
      acct_at_inside acct_store_inside TRFR_AMT_def word_sless_alt length_init_accts
      nth_init_accts htm_only_accts_def)

lemma sw_txn_counting:
  "sw_txn counting_rand init_state =
     Some (Returned () (init_state\<lparr>accts := sw_only_accts, seqlock := 2, tid := 20\<rparr>))"
  by (simp add: sw_txn_def sw_begin_def read_seqlock_even_even sw_transfers_numeral
      init_state_def pick_accounts_counting sw_read_def sw_read_loop_quiet sw_write_def
      acct_at_inside acct_store_inside TRFR_AMT_def word_sless_alt length_init_accts
      nth_init_accts sw_commit_def acquire_window_free counter_unchanged sw_only_accts_def)

lemma run_txn_hw_abort:
  "\<not> xbegin_started hw \<Longrightarrow> 0 < attempts \<Longrightarrow>
     run_txn g hw attempts tr s = run_txn g (tl hw) (attempts - 1) (tr @ [HTM_Abort]) s"
  by (subst run_txn.simps) simp

lemma run_txn_fallback:
  "\<not> xbegin_started hw \<Longrightarrow> \<not> 0 < attempts \<Longrightarrow>
     run_txn g hw attempts tr s =
       Option.bind (sw_txn g s) (\<lambda>r2.
         case r2 of
           Returned _ s2 \<Rightarrow>
             Some (Returned (tr @ [HTM_Abort, SW_Commit], tl hw) (s2\<lparr>swCount := swCount s2 + 1\<rparr>))
         | Undefined_Behaviour \<Rightarrow> Some Undefined_Behaviour
         | Aborted s2 \<Rightarrow> run_txn g (tl hw) 5 (tr @ [HTM_Abort, SW_Abort]) s2)"
  by (subst run_txn.simps) simp

lemma run_txn_hw_commit:
  "xbegin_started hw \<Longrightarrow> hw_region g s = Some (Returned u s1) \<Longrightarrow>
     run_txn g hw attempts tr s =
       Some (Returned (tr @ [HTM_Commit], tl hw) (s1\<lparr>htmCount := htmCount s1 + 1\<rparr>))"
  by (subst run_txn.simps) simp

text \<open>
  Claim C2. With \<^verbatim>\<open>attempts\<close> starting at 5 and the test \<^verbatim>\<open>attempts > 0\<close> made after
  the failed \<^verbatim>\<open>_xbegin\<close>, the hardware path is entered with \<^verbatim>\<open>attempts\<close> = 5, 4, 3, 2,
  1 and 0: when the hardware keeps aborting, six hardware attempts are made before the
  one software attempt. A software abort starts the transaction again with \<^verbatim>\<open>attempts\<close>
  back at 5.
\<close>

theorem six_hardware_attempts:
  "run_txn g (False # False # False # False # False # False # hw) 5 tr s =
     Option.bind (sw_txn g s) (\<lambda>r2.
       case r2 of
         Returned _ s2 \<Rightarrow>
           Some (Returned
                   (tr @ [HTM_Abort, HTM_Abort, HTM_Abort, HTM_Abort, HTM_Abort, HTM_Abort,
                          SW_Commit], hw)
                   (s2\<lparr>swCount := swCount s2 + 1\<rparr>))
       | Undefined_Behaviour \<Rightarrow> Some Undefined_Behaviour
       | Aborted s2 \<Rightarrow>
           run_txn g hw 5
             (tr @ [HTM_Abort, HTM_Abort, HTM_Abort, HTM_Abort, HTM_Abort, HTM_Abort, SW_Abort])
             s2)"
  by (simp add: run_txn_hw_abort run_txn_fallback xbegin_started_def cong: outcome.case_cong)

lemma run_txn_software_only:
  "run_txn counting_rand [False, False, False, False, False, False] 5 [] init_state =
     Some (Returned
       ([HTM_Abort, HTM_Abort, HTM_Abort, HTM_Abort, HTM_Abort, HTM_Abort, SW_Commit], [])
       (init_state\<lparr>accts := sw_only_accts, seqlock := 2, tid := 20, swCount := 1\<rparr>))"
  by (simp add: run_txn_hw_abort run_txn_fallback xbegin_started_def sw_txn_counting)
     (simp add: init_state_def)

lemma run_txn_htm_only:
  "run_txn counting_rand [True] 5 [] init_state =
     Some (Returned ([HTM_Commit], [])
       (init_state\<lparr>accts := htm_only_accts, counter := (replicate 72 0)[20 := 1], tid := 20,
          htmCount := 1\<rparr>))"
  using run_txn_hw_commit [OF _ hw_region_counting, of "[True]" 5 "[]"]
  by (simp add: xbegin_started_def) (simp add: init_state_def)

lemma htm_sw_accts_differ: "htm_only_accts \<noteq> sw_only_accts"
proof
  assume "htm_only_accts = sw_only_accts"
  then have "htm_only_accts ! 1 = sw_only_accts ! 1" by simp
  then show False
    by (simp add: htm_only_accts_def sw_only_accts_def length_init_accts)
qed

text \<open>
  Through the dispatcher: one transaction that the hardware commits at once, and one
  that falls back to software after six hardware aborts, from the same state and seed.
\<close>

lemma htm_only_and_software_only_runs:
  "run_txn counting_rand [True] 5 [] init_state =
     Some (Returned ([HTM_Commit], [])
       (init_state\<lparr>accts := htm_only_accts, counter := (replicate 72 0)[20 := 1], tid := 20,
          htmCount := 1\<rparr>))
   \<and> run_txn counting_rand [False, False, False, False, False, False] 5 [] init_state =
     Some (Returned
       ([HTM_Abort, HTM_Abort, HTM_Abort, HTM_Abort, HTM_Abort, HTM_Abort, SW_Commit], [])
       (init_state\<lparr>accts := sw_only_accts, seqlock := 2, tid := 20, swCount := 1\<rparr>))
   \<and> acct_value (htm_only_accts ! 1) = 950 \<and> acct_value (sw_only_accts ! 1) = 1050
   \<and> htm_only_accts \<noteq> sw_only_accts"
  using run_txn_htm_only run_txn_software_only htm_sw_accts_differ
  by (simp add: htm_only_accts_def sw_only_accts_def length_init_accts)

section \<open>The sum of the balances under the two transaction bodies\<close>

lemma small_index:
  assumes "(r :: 32 word) < 1000"
  shows "0 \<le> sint r" and "nat (sint r) < 1000"
proof -
  from assms have u: "uint r < 1000" by (simp add: word_less_def)
  then have e: "sint r = uint r"
    by (simp add: sint_uint signed_take_bit_eq_if_positive bit_iff_odd take_bit_int_eq_self)
  from e show "0 \<le> sint r" by simp
  from assms have "unat r < 1000" by (simp add: word_less_nat_alt)
  with e show "nat (sint r) < 1000" by simp
qed

lemma index_inj:
  assumes "0 \<le> sint (a :: 32 word)" and "0 \<le> sint b" and "nat (sint a) = nat (sint b)"
  shows "a = b"
proof -
  from assms have "sint a = sint b" by linarith
  then show ?thesis by (rule signed_word_eqI)
qed

lemma sum_list_update_word:
  "i < length xs \<Longrightarrow> sum_list (xs[i := v]) = sum_list xs - xs ! i + (v :: 32 word)"
proof (induction xs arbitrary: i)
  case Nil
  then show ?case by simp
next
  case (Cons x xs)
  then show ?case by (cases i) simp_all
qed

lemma sum_values_update:
  assumes "i < length m"
  shows "sum_list (map acct_value (m[i := (m ! i)\<lparr>acct_value := v\<rparr>])) =
       sum_list (map acct_value m) - acct_value (m ! i) + v"
  using assms sum_list_update_word [of i "map acct_value m" v] by (simp add: map_update)

lemma acct_store_Some:
  assumes "acct_store m a v = Some m'"
  shows "0 \<le> sint a" and "nat (sint a) < length m"
    and "m' = m[nat (sint a) := (m ! nat (sint a))\<lparr>acct_value := v\<rparr>]"
  using assms by (auto simp: acct_store_def split: if_splits)

lemma acct_at_Some:
  assumes "acct_at m a = Some c"
  shows "0 \<le> sint a" and "nat (sint a) < length m" and "c = m ! nat (sint a)"
  using assms by (auto simp: acct_at_def split: if_splits)


lemma hw_transfers_total:
  "hw_transfers g n s = Some (Returned u s') \<Longrightarrow>
     \<exists>k\<le>n. sum_list (map acct_value (accts s')) + of_nat k * 100
              = sum_list (map acct_value (accts s))
            \<and> (0 < n \<and> (\<forall>c\<in>set (accts s). \<not> acct_value c <s TRFR_AMT) \<longrightarrow> 0 < k)"
proof (induction n arbitrary: s)
  case 0
  then show ?case by simp
next
  case (Suc n)
  from Suc.prems obtain r1 r2 s1 where p: "pick_accounts g 0 0 s = Some (r1, r2, s1)"
    by (cases "pick_accounts g 0 0 s") auto
  then obtain t where s1: "s1 = s\<lparr>tid := t\<rparr>" and ne: "r1 \<noteq> r2"
    using pick_accounts_Some(1,2) by blast
  from Suc.prems p obtain c1 where c1: "acct_at (accts s1) r1 = Some c1"
    by (cases "acct_at (accts s1) r1") auto
  show ?case
  proof (cases "acct_value c1 <s TRFR_AMT")
    case True
    with Suc.prems p c1 have "s' = s1" by simp
    with s1 have "sum_list (map acct_value (accts s')) + of_nat 0 * 100
              = sum_list (map acct_value (accts s))" by simp
    moreover have "c1 \<in> set (accts s)"
      using acct_at_Some [OF c1] s1 by simp
    ultimately show ?thesis using True by blast
  next
    case False
    with Suc.prems p c1 obtain c2 where c2: "acct_at (accts s1) r2 = Some c2"
      by (cases "acct_at (accts s1) r2") auto
    let ?i1 = "nat (sint r1)" and ?i2 = "nat (sint r2)" and ?m = "accts s1"
    note a1 = acct_at_Some [OF c1] and a2 = acct_at_Some [OF c2]
    let ?m1 = "?m[?i1 := (?m ! ?i1)\<lparr>acct_value := acct_value c1 - TRFR_AMT\<rparr>]"
    let ?m2 = "?m1[?i2 := (?m1 ! ?i2)\<lparr>acct_value := acct_value c2 - TRFR_AMT\<rparr>]"
    have st1: "acct_store ?m r1 (acct_value c1 - TRFR_AMT) = Some ?m1"
      using a1 by (simp add: acct_store_def)
    have st2: "acct_store ?m1 r2 (acct_value c2 - TRFR_AMT) = Some ?m2"
      using a2 by (simp add: acct_store_def)
    have idx: "?i1 \<noteq> ?i2" using ne a1(1) a2(1) index_inj by blast
    have "sum_list (map acct_value ?m1) =
            sum_list (map acct_value ?m) - acct_value c1 + (acct_value c1 - TRFR_AMT)"
      using a1 by (simp add: sum_values_update)
    moreover have "sum_list (map acct_value ?m2) =
            sum_list (map acct_value ?m1) - acct_value c2 + (acct_value c2 - TRFR_AMT)"
      using a2 idx sum_values_update [of ?i2 ?m1] by simp
    ultimately have tot: "sum_list (map acct_value ?m2) + 100 = sum_list (map acct_value ?m)"
      by (simp add: TRFR_AMT_def)
    from Suc.prems p c1 False c2 st1 st2
    have "hw_transfers g n (s1\<lparr>accts := ?m2\<rparr>) = Some (Returned u s')" by simp
    from Suc.IH [OF this] obtain k where k: "k \<le> n"
      and ih: "sum_list (map acct_value (accts s')) + of_nat k * 100
                 = sum_list (map acct_value ?m2)"
      by auto
    have "sum_list (map acct_value (accts s')) + of_nat (Suc k) * 100
            = (sum_list (map acct_value (accts s')) + of_nat k * 100) + 100"
      by (simp add: algebra_simps)
    also have "\<dots> = sum_list (map acct_value ?m2) + 100" by (simp only: ih)
    also have "\<dots> = sum_list (map acct_value ?m)" by (rule tot)
    also have "\<dots> = sum_list (map acct_value (accts s))" by (simp add: s1)
    finally have "sum_list (map acct_value (accts s')) + of_nat (Suc k) * 100
              = sum_list (map acct_value (accts s))" .
    with k show ?thesis by (intro exI [of _ "Suc k"]) simp
  qed
qed


lemma init_accts_value: "c \<in> set init_accts \<Longrightarrow> acct_value c = 1000"
  by (auto simp: init_accts_def INIT_BALANCE_def)

lemma hw_region_init_total:
  assumes "hw_region g (init_state\<lparr>tid := seed\<rparr>) = Some (Returned u s1)"
  shows "\<exists>k. 0 < k \<and> k \<le> 10 \<and>
           sum_list (map acct_value (accts s1)) + of_nat k * 100
             = sum_list (map acct_value init_accts)"
proof -
  let ?s0 = "init_state\<lparr>tid := seed\<rparr>"
  from assms obtain v s' where t: "hw_transfers g 10 ?s0 = Some (Returned v s')"
    and a: "accts s1 = accts s'"
    by (auto simp: hw_region_def init_state_def split: if_splits outcome.splits
        elim!: bind_eq_Some_conv [THEN iffD1, elim_format])
  have rich: "\<forall>c\<in>set (accts ?s0). \<not> acct_value c <s TRFR_AMT"
    by (auto simp: init_state_def init_accts_value TRFR_AMT_def word_sless_alt)
  from hw_transfers_total [OF t] rich obtain k where "k \<le> 10" "0 < k"
    "sum_list (map acct_value (accts s')) + of_nat k * 100
       = sum_list (map acct_value (accts ?s0))"
    by auto
  with a show ?thesis by (auto simp: init_state_def)
qed


lemma writeback_append:
  "writeback m (ws @ ws') = Option.bind (writeback m ws) (\<lambda>m1. writeback m1 ws')"
  by (induction ws arbitrary: m) (auto split: option.splits)

lemma writeback_Some:
  "writeback m ws = Some m' \<Longrightarrow>
     length m' = length m
     \<and> (\<forall>e\<in>set ws. 0 \<le> sint (acct_addr e) \<and> nat (sint (acct_addr e)) < length m)"
proof (induction ws arbitrary: m)
  case Nil
  then show ?case by simp
next
  case (Cons e es)
  from Cons.prems obtain m1 where m1: "acct_store m (acct_addr e) (acct_value e) = Some m1"
    and r: "writeback m1 es = Some m'"
    by (auto split: option.splits)
  from acct_store_Some [OF m1] have "length m1 = length m" by simp
  with Cons.IH [OF r] acct_store_Some(1,2) [OF m1] show ?case by simp
qed

lemma read_your_writes:
  assumes "writeback m ws = Some m'" and "0 \<le> sint r" and "nat (sint r) < length m"
  shows "acct_value (m' ! nat (sint r)) =
           (case find (\<lambda>e. acct_addr e = r) (rev ws) of
              Some e \<Rightarrow> acct_value e
            | None \<Rightarrow> acct_value (m ! nat (sint r)))"
  using assms
proof (induction ws arbitrary: m)
  case Nil
  then show ?case by simp
next
  case (Cons e es)
  from Cons.prems(1) obtain m1 where m1: "acct_store m (acct_addr e) (acct_value e) = Some m1"
    and r: "writeback m1 es = Some m'"
    by (auto split: option.splits)
  note st = acct_store_Some [OF m1]
  from st have len: "length m1 = length m" by simp
  have v1: "acct_value (m1 ! nat (sint r)) =
              (if acct_addr e = r then acct_value e else acct_value (m ! nat (sint r)))"
  proof (cases "acct_addr e = r")
    case True
    with st Cons.prems(3) show ?thesis by simp
  next
    case False
    then have "nat (sint (acct_addr e)) \<noteq> nat (sint r)"
      using st(1) Cons.prems(2) index_inj by blast
    with st False show ?thesis by simp
  qed
  from Cons.IH [OF r Cons.prems(2)] len Cons.prems(3)
  have "acct_value (m' ! nat (sint r)) =
           (case find (\<lambda>e. acct_addr e = r) (rev es) of
              Some e \<Rightarrow> acct_value e
            | None \<Rightarrow> acct_value (m1 ! nat (sint r)))" by simp
  with v1 show ?case by (simp add: find_in_append split: option.splits)
qed

lemma find_SomeD: "find P xs = Some x \<Longrightarrow> x \<in> set xs \<and> P x"
  by (induction xs) (auto split: if_splits)

lemma sw_read_quiet:
  assumes "sw_read r s = Some (Returned a s')" and "rv s = seqlock s"
    and "writeback (accts s) (write_set s) = Some m'"
  shows "0 \<le> sint r" and "nat (sint r) < length (accts s)"
    and "a = acct_value (m' ! nat (sint r))"
    and "\<exists>rs. s' = s\<lparr>read_set := rs\<rparr>"
proof -
  have rng: "0 \<le> sint r \<and> nat (sint r) < length (accts s) \<and> (\<exists>rs. s' = s\<lparr>read_set := rs\<rparr>)"
  proof (cases "find (\<lambda>e. acct_addr e = r) (rev (write_set s))")
    case (Some e)
    then have "e \<in> set (write_set s)" "acct_addr e = r"
      using find_SomeD [of "\<lambda>e. acct_addr e = r" "rev (write_set s)" e] by simp_all
    moreover from assms(1) Some have "s' = s\<lparr>read_set := read_set s\<rparr>" by (simp add: sw_read_def)
    ultimately show ?thesis using writeback_Some [OF assms(3)] by blast
  next
    case None
    with assms(1) obtain c where c: "acct_at (accts s) r = Some c"
      by (cases "acct_at (accts s) r") (auto simp: sw_read_def)
    with assms(1,2) None have "s' = s\<lparr>read_set := read_set s @ [\<lparr>acct_addr = r, acct_value = acct_value c\<rparr>]\<rparr>"
      by (auto simp: sw_read_def sw_read_loop_quiet)
    with acct_at_Some [OF c] show ?thesis by blast
  qed
  then show "0 \<le> sint r" and "nat (sint r) < length (accts s)"
    and "\<exists>rs. s' = s\<lparr>read_set := rs\<rparr>" by blast+
  from rng have v: "acct_value (m' ! nat (sint r)) =
           (case find (\<lambda>e. acct_addr e = r) (rev (write_set s)) of
              Some e \<Rightarrow> acct_value e
            | None \<Rightarrow> acct_value (accts s ! nat (sint r)))"
    using read_your_writes [OF assms(3)] by blast
  show "a = acct_value (m' ! nat (sint r))"
  proof (cases "find (\<lambda>e. acct_addr e = r) (rev (write_set s))")
    case (Some e)
    with assms(1) v show ?thesis by (simp add: sw_read_def)
  next
    case None
    with assms(1) obtain c where c: "acct_at (accts s) r = Some c"
      by (cases "acct_at (accts s) r") (auto simp: sw_read_def)
    with assms(1,2) None have "a = acct_value c" by (auto simp: sw_read_def sw_read_loop_quiet)
    with acct_at_Some(3) [OF c] v None show ?thesis by simp
  qed
qed

lemma sw_transfers_total:
  assumes "sw_transfers g n s = Some (Returned u s')" and "rv s = seqlock s"
    and "writeback (accts s) (write_set s) = Some m'"
  shows "rv s' = seqlock s' \<and> accts s' = accts s \<and> seqlock s' = seqlock s
         \<and> snap_counter s' = snap_counter s \<and> counter s' = counter s
         \<and> (\<exists>m''. writeback (accts s') (write_set s') = Some m''
                \<and> sum_list (map acct_value m'') = sum_list (map acct_value m'))"
  using assms
proof (induction n arbitrary: s m')
  case 0
  then show ?case by simp
next
  case (Suc n)
  from Suc.prems(1) obtain r1 r2 s1 where p: "pick_accounts g 0 0 s = Some (r1, r2, s1)"
    by (cases "pick_accounts g 0 0 s") auto
  then obtain t where s1: "s1 = s\<lparr>tid := t\<rparr>" and ne: "r1 \<noteq> r2"
    using pick_accounts_Some(1,2) by blast
  from Suc.prems(1) p obtain a1 s2 where ra: "sw_read r1 s1 = Some (Returned a1 s2)"
    by (cases "sw_read r1 s1") (auto split: outcome.splits)
  have q1: "rv s1 = seqlock s1" "writeback (accts s1) (write_set s1) = Some m'"
    using Suc.prems(2,3) s1 by simp_all
  note r1 = sw_read_quiet [OF ra q1]
  from r1(4) obtain rs where s2: "s2 = s1\<lparr>read_set := rs\<rparr>" by blast
  show ?case
  proof (cases "a1 <s TRFR_AMT")
    case True
    with Suc.prems(1) p ra have "s' = s2" by simp
    with s1 s2 Suc.prems(2,3) show ?thesis by simp
  next
    case False
    with Suc.prems(1) p ra obtain a2 s3 where rb: "sw_read r2 s2 = Some (Returned a2 s3)"
      by (cases "sw_read r2 s2") (auto split: outcome.splits)
    have q2: "rv s2 = seqlock s2" "writeback (accts s2) (write_set s2) = Some m'"
      using q1 s2 by simp_all
    note r2 = sw_read_quiet [OF rb q2]
    from r2(4) obtain rs' where s3: "s3 = s2\<lparr>read_set := rs'\<rparr>" by blast
    let ?s4 = "sw_write r2 (a2 + TRFR_AMT) (sw_write r1 (a1 - TRFR_AMT) s3)"
    let ?i1 = "nat (sint r1)" and ?i2 = "nat (sint r2)"
    let ?m1 = "m'[?i1 := (m' ! ?i1)\<lparr>acct_value := a1 - TRFR_AMT\<rparr>]"
    let ?m2 = "?m1[?i2 := (?m1 ! ?i2)\<lparr>acct_value := a2 + TRFR_AMT\<rparr>]"
    from writeback_Some [OF Suc.prems(3)] have len: "length m' = length (accts s)" by simp
    have in1: "?i1 < length m'" and in2: "?i2 < length m'"
      using r1(2) r2(2) s1 s2 len by simp_all
    have idx: "?i1 \<noteq> ?i2" using ne r1(1) r2(1) index_inj by blast
    have ws4: "write_set ?s4 = write_set s @
        [\<lparr>acct_addr = r1, acct_value = a1 - TRFR_AMT\<rparr>,
         \<lparr>acct_addr = r2, acct_value = a2 + TRFR_AMT\<rparr>]"
      using s1 s2 s3 by (simp add: sw_write_def)
    have st: "?s4 = s\<lparr>tid := t, read_set := rs', write_set := write_set ?s4\<rparr>"
      using s1 s2 s3 by (simp add: sw_write_def)
    have wb: "writeback (accts ?s4) (write_set ?s4) = Some ?m2"
      using Suc.prems(3) in1 in2 r1(1) r2(1) st
      by (simp add: ws4 writeback_append acct_store_def sw_write_def s1 s2 s3)
    have "sum_list (map acct_value ?m1) =
            sum_list (map acct_value m') - a1 + (a1 - TRFR_AMT)"
      using in1 r1(3) by (simp add: sum_values_update)
    moreover have "sum_list (map acct_value ?m2) =
            sum_list (map acct_value ?m1) - a2 + (a2 + TRFR_AMT)"
      using in2 idx r2(3) sum_values_update [of ?i2 ?m1] by simp
    ultimately have tot: "sum_list (map acct_value ?m2) = sum_list (map acct_value m')"
      by simp
    have q4: "rv ?s4 = seqlock ?s4"
      using Suc.prems(2) s1 s2 s3 by (simp add: sw_write_def)
    from Suc.prems(1) p ra False rb
    have "sw_transfers g n ?s4 = Some (Returned u s')" by simp
    from Suc.IH [OF this q4 wb] obtain m'' where
      ih: "rv s' = seqlock s'" "accts s' = accts ?s4" "seqlock s' = seqlock ?s4"
        "snap_counter s' = snap_counter ?s4" "counter s' = counter ?s4"
        "writeback (accts s') (write_set s') = Some m''"
        "sum_list (map acct_value m'') = sum_list (map acct_value ?m2)"
      by blast
    have fr: "accts ?s4 = accts s" "seqlock ?s4 = seqlock s"
      "snap_counter ?s4 = snap_counter s" "counter ?s4 = counter s"
      by (simp_all add: sw_write_def s1 s2 s3)
    from ih(7) tot have "sum_list (map acct_value m'') = sum_list (map acct_value m')"
      by (simp only:)
    with ih(1-6) fr show ?thesis by (simp only:) blast
  qed
qed

lemma sw_txn_init_total:
  assumes "sw_txn g (init_state\<lparr>tid := seed\<rparr>) = Some (Returned u s2)"
  shows "sum_list (map acct_value (accts s2)) = sum_list (map acct_value init_accts)"
proof -
  define s0 where "s0 = init_state\<lparr>tid := seed, rv := 0, snap_counter := replicate 72 0\<rparr>"
  have p0: "rv s0 = seqlock s0" "write_set s0 = []" "accts s0 = init_accts"
    "snap_counter s0 = counter s0"
    by (simp_all add: s0_def init_state_def)
  have b: "sw_begin (init_state\<lparr>tid := seed\<rparr>) = Some s0"
    by (simp add: s0_def sw_begin_def read_seqlock_even_even init_state_def)
  from assms b have run: "Option.bind (sw_transfers g 10 s0) (\<lambda>r.
         case r of
           Aborted s2 \<Rightarrow> Some (Aborted s2)
         | Undefined_Behaviour \<Rightarrow> Some Undefined_Behaviour
         | Returned _ s2 \<Rightarrow> sw_commit s2) = Some (Returned u s2)"
    by (simp add: sw_txn_def)
  then obtain r where r: "sw_transfers g 10 s0 = Some r"
    by (cases "sw_transfers g 10 s0") simp_all
  with run obtain v s3 where t: "sw_transfers g 10 s0 = Some (Returned v s3)"
    and c: "sw_commit s3 = Some (Returned u s2)"
    by (cases r) simp_all
  have w0: "writeback (accts s0) (write_set s0) = Some init_accts"
    by (simp add: p0)
  from sw_transfers_total [OF t p0(1) w0] obtain m'' where
    f: "rv s3 = seqlock s3" "accts s3 = accts s0" "snap_counter s3 = snap_counter s0"
      "counter s3 = counter s0"
    and w: "writeback (accts s3) (write_set s3) = Some m''"
    and tot: "sum_list (map acct_value m'') = sum_list (map acct_value init_accts)"
    by blast
  show ?thesis
  proof (cases "write_set s3 = []")
    case True
    with c have "s2 = s3" by (simp add: sw_commit_def)
    with f(2) p0(3) show ?thesis by simp
  next
    case False
    let ?s4 = "s3\<lparr>seqlock := rv s3 + 1\<rparr>"
    have a: "acquire_window s3 = Some (Returned () ?s4)"
      using f(1) by (simp add: acquire_window_free)
    have n: "\<not> counter_changed (snap_counter ?s4) (counter ?s4)"
      using f(3,4) p0(4) by (simp add: counter_unchanged)
    have w4: "writeback (accts ?s4) (write_set ?s4) = Some m''"
      using w by simp
    from c False have "accts s2 = m''"
      unfolding sw_commit_def a using n w4 by auto
    with tot show ?thesis by simp
  qed
qed

lemma word_of_nat_zero:
  assumes "(of_nat n :: 32 word) = 0" and "n < 4294967296"
  shows "n = 0"
proof -
  have "unat (of_nat n :: 32 word) = n mod 2 ^ 32" by (simp add: unat_of_nat)
  also have "\<dots> = n" using assms(2) by simp
  finally show "n = 0" using assms(1) by simp
qed

lemma hundreds_not_zero:
  assumes "0 < k" and "k \<le> 10"
  shows "(of_nat k * 100 :: 32 word) \<noteq> 0"
proof
  assume z: "(of_nat k * 100 :: 32 word) = 0"
  have "(of_nat k * 100 :: 32 word) = of_nat (k * 100)"
    by (simp only: of_nat_mult of_nat_numeral)
  with z have "(of_nat (k * 100) :: 32 word) = 0" by (simp only:)
  moreover have "k * 100 < 4294967296" using assms(2) by simp
  ultimately have "k * 100 = 0" by (rule word_of_nat_zero)
  with assms(1) show False by simp
qed

text \<open>
  Claim C3. The two bodies do not agree. Whatever the generator and the seed, when one
  transaction is run from the state \<^verbatim>\<open>main\<close> sets up by the hardware body alone and
  by the software body alone, and both complete, the final accounts differ: the
  software body keeps the sum of the balances (\<^verbatim>\<open>a1 - TRFR_AMT\<close>, \<^verbatim>\<open>a2 + TRFR_AMT\<close>),
  the hardware body lowers it by 100 for every transfer it makes
  (\<^verbatim>\<open>a1 - TRFR_AMT\<close>, \<^verbatim>\<open>a2 - TRFR_AMT\<close>), and it makes at least one.
\<close>

theorem htm_and_software_bodies_differ:
  assumes "hw_region g (init_state\<lparr>tid := seed\<rparr>) = Some (Returned u s1)"
    and "sw_txn g (init_state\<lparr>tid := seed\<rparr>) = Some (Returned v s2)"
  shows "accts s1 \<noteq> accts s2"
proof
  assume e: "accts s1 = accts s2"
  from hw_region_init_total [OF assms(1)] obtain k where k: "0 < k" "k \<le> 10"
    and h: "sum_list (map acct_value (accts s1)) + of_nat k * 100
             = sum_list (map acct_value init_accts)" by blast
  from sw_txn_init_total [OF assms(2)] e h
  have "sum_list (map acct_value (accts s1)) + of_nat k * 100
          = sum_list (map acct_value (accts s1))" by simp
  then have "(of_nat k * 100 :: 32 word) = 0" by simp
  with hundreds_not_zero [OF k] show False by simp
qed

theorem htm_and_software_bodies_differ_witness:
  "hw_region counting_rand (init_state\<lparr>tid := 0\<rparr>) =
     Some (Returned ()
       (init_state\<lparr>accts := htm_only_accts, counter := (replicate 72 0)[20 := 1], tid := 20\<rparr>))
   \<and> sw_txn counting_rand (init_state\<lparr>tid := 0\<rparr>) =
     Some (Returned () (init_state\<lparr>accts := sw_only_accts, seqlock := 2, tid := 20\<rparr>))
   \<and> htm_only_accts \<noteq> sw_only_accts"
proof -
  have e: "init_state\<lparr>tid := 0\<rparr> = init_state" by (simp add: init_state_def)
  have h: "hw_region counting_rand (init_state\<lparr>tid := 0\<rparr>) =
     Some (Returned ()
       (init_state\<lparr>accts := htm_only_accts, counter := (replicate 72 0)[20 := 1], tid := 20\<rparr>))"
    by (simp only: e hw_region_counting)
  have s: "sw_txn counting_rand (init_state\<lparr>tid := 0\<rparr>) =
     Some (Returned () (init_state\<lparr>accts := sw_only_accts, seqlock := 2, tid := 20\<rparr>))"
    by (simp only: e sw_txn_counting)
  from htm_and_software_bodies_differ [OF h s] have "htm_only_accts \<noteq> sw_only_accts" by simp
  with h s show ?thesis by blast
qed

section \<open>Counting the committed transactions\<close>

lemma sw_begin_keeps:
  "sw_begin s = Some s' \<Longrightarrow> s' = s\<lparr>rv := seqlock s, snap_counter := counter s\<rparr>"
  by (cases "seqlock s AND 1 = 0")
     (auto simp: sw_begin_def read_seqlock_even_even read_seqlock_even_odd)

lemma hw_transfers_counts:
  "hw_transfers g n s = Some (Returned u s') \<Longrightarrow>
     htmCount s' = htmCount s \<and> swCount s' = swCount s"
proof (induction n arbitrary: s)
  case 0
  then show ?case by simp
next
  case (Suc n)
  from Suc.prems obtain r1 r2 s1 where p: "pick_accounts g 0 0 s = Some (r1, r2, s1)"
    by (cases "pick_accounts g 0 0 s") auto
  then obtain t where s1: "s1 = s\<lparr>tid := t\<rparr>" using pick_accounts_Some(2) by blast
  from Suc.prems p obtain c1 where c1: "acct_at (accts s1) r1 = Some c1"
    by (cases "acct_at (accts s1) r1") auto
  show ?case
  proof (cases "acct_value c1 <s TRFR_AMT")
    case True
    with Suc.prems p c1 s1 show ?thesis by auto
  next
    case False
    with Suc.prems p c1 obtain m2 where
      "hw_transfers g n (s1\<lparr>accts := m2\<rparr>) = Some (Returned u s')"
      by (auto split: option.splits)
    from Suc.IH [OF this] s1 show ?thesis by simp
  qed
qed

lemma hw_region_counts:
  assumes "hw_region g s = Some (Returned u s')"
  shows "htmCount s' = htmCount s \<and> swCount s' = swCount s"
proof -
  from assms obtain v s1 where t: "hw_transfers g 10 s = Some (Returned v s1)"
    and e: "htmCount s' = htmCount s1 \<and> swCount s' = swCount s1"
    by (cases "hw_transfers g 10 s")
       (auto simp: hw_region_def split: if_splits outcome.splits)
  from hw_transfers_counts [OF t] e show ?thesis by simp
qed

lemma hw_transfers_not_Aborted: "hw_transfers g n s \<noteq> Some (Aborted s')"
proof (induction n arbitrary: s)
  case 0
  then show ?case by simp
next
  case (Suc n)
  show ?case
  proof
    assume a: "hw_transfers g (Suc n) s = Some (Aborted s')"
    then obtain r1 r2 s1 where p: "pick_accounts g 0 0 s = Some (r1, r2, s1)"
      by (cases "pick_accounts g 0 0 s") auto
    with a obtain m2 where "hw_transfers g n (s1\<lparr>accts := m2\<rparr>) = Some (Aborted s')"
      by (auto split: option.splits if_splits)
    with Suc.IH show False by blast
  qed
qed

lemma hw_region_Aborted:
  assumes "hw_region g s = Some (Aborted s')"
  shows "s' = s"
proof (cases "seqlock s AND 1 \<noteq> 0")
  case True
  with assms show ?thesis by (simp add: hw_region_def)
next
  case False
  with assms have "hw_transfers g 10 s = Some (Aborted s')"
    by (cases "hw_transfers g 10 s")
       (auto simp: hw_region_def split: if_splits outcome.splits)
  with hw_transfers_not_Aborted show ?thesis by blast
qed

lemma sw_read_counts:
  assumes "sw_read a s = Some r"
  shows "case r of
           Returned _ s' \<Rightarrow> htmCount s' = htmCount s \<and> swCount s' = swCount s
         | Aborted s' \<Rightarrow> htmCount s' = htmCount s \<and> swCount s' = swCount s
         | Undefined_Behaviour \<Rightarrow> True"
proof (cases r)
  case (Returned v s')
  with assms sw_read_Returned [of a s v s'] show ?thesis by auto
next
  case (Aborted s')
  with assms sw_read_Aborted [of a s s'] show ?thesis by auto
next
  case Undefined_Behaviour
  then show ?thesis by simp
qed

lemma sw_transfers_counts:
  "sw_transfers g n s = Some r \<Longrightarrow>
     (case r of
        Returned _ s' \<Rightarrow> htmCount s' = htmCount s \<and> swCount s' = swCount s
      | Aborted s' \<Rightarrow> htmCount s' = htmCount s \<and> swCount s' = swCount s
      | Undefined_Behaviour \<Rightarrow> True)"
proof (induction n arbitrary: s)
  case 0
  then show ?case by auto
next
  case (Suc n)
  from Suc.prems obtain r1 r2 s1 where p: "pick_accounts g 0 0 s = Some (r1, r2, s1)"
    by (cases "pick_accounts g 0 0 s") auto
  then obtain t where s1: "s1 = s\<lparr>tid := t\<rparr>" using pick_accounts_Some(2) by blast
  from Suc.prems p obtain ra where ra: "sw_read r1 s1 = Some ra"
    by (cases "sw_read r1 s1") auto
  note c1 = sw_read_counts [OF ra]
  show ?case
  proof (cases ra)
    case (Aborted s2)
    with Suc.prems p ra c1 s1 show ?thesis by auto
  next
    case Undefined_Behaviour
    with Suc.prems p ra show ?thesis by auto
  next
    case ret1: (Returned a1 s2)
    show ?thesis
    proof (cases "a1 <s TRFR_AMT")
      case True
      with Suc.prems p ra ret1 c1 s1 show ?thesis by auto
    next
      case False
      with Suc.prems p ra ret1 obtain rb where rb: "sw_read r2 s2 = Some rb"
        by (cases "sw_read r2 s2") auto
      note c2 = sw_read_counts [OF rb]
      show ?thesis
      proof (cases rb)
        case (Aborted s3)
        with Suc.prems p ra ret1 False rb c1 c2 s1 show ?thesis by auto
      next
        case Undefined_Behaviour
        with Suc.prems p ra ret1 False rb show ?thesis by auto
      next
        case ret2: (Returned a2 s3)
        let ?s4 = "sw_write r2 (a2 + TRFR_AMT) (sw_write r1 (a1 - TRFR_AMT) s3)"
        from Suc.prems p ra ret1 False rb ret2
        have "sw_transfers g n ?s4 = Some r" by simp
        from Suc.IH [OF this] c1 c2 ret1 ret2 s1 show ?thesis
          by (auto simp: sw_write_def split: outcome.splits)
      qed
    qed
  qed
qed

lemma acquire_window_counts:
  assumes "acquire_window s = Some r"
  shows "case r of
           Returned _ s' \<Rightarrow> htmCount s' = htmCount s \<and> swCount s' = swCount s
         | Aborted s' \<Rightarrow> htmCount s' = htmCount s \<and> swCount s' = swCount s
         | Undefined_Behaviour \<Rightarrow> True"
proof (cases "seqlock s = rv s")
  case True
  with assms show ?thesis by (auto simp: acquire_window_free)
next
  case False
  with assms show ?thesis
    by (auto simp: acquire_window_busy sw_abort_def split: if_splits scan.splits)
qed

lemma sw_validate_counts:
  assumes "sw_validate s = Some r"
  shows "case r of
           Returned _ s' \<Rightarrow> htmCount s' = htmCount s \<and> swCount s' = swCount s
         | Aborted s' \<Rightarrow> htmCount s' = htmCount s \<and> swCount s' = swCount s
         | Undefined_Behaviour \<Rightarrow> True"
proof (cases "seqlock s AND 1 = 0")
  case True
  with assms show ?thesis
    by (auto simp: sw_validate_even sw_abort_def split: scan.splits)
next
  case False
  with assms show ?thesis by (simp add: sw_validate_odd)
qed

lemma sw_commit_counts:
  assumes "sw_commit s = Some r"
  shows "case r of
           Returned _ s' \<Rightarrow> htmCount s' = htmCount s \<and> swCount s' = swCount s
         | Aborted s' \<Rightarrow> htmCount s' = htmCount s \<and> swCount s' = swCount s
         | Undefined_Behaviour \<Rightarrow> True"
proof (cases "write_set s = []")
  case True
  with assms show ?thesis by (auto simp: sw_commit_def)
next
  case False
  with assms obtain ra where ra: "acquire_window s = Some ra"
    by (cases "acquire_window s") (auto simp: sw_commit_def)
  note ca = acquire_window_counts [OF ra]
  show ?thesis
  proof (cases ra)
    case (Aborted s1)
    with assms False ra ca show ?thesis by (auto simp: sw_commit_def)
  next
    case Undefined_Behaviour
    with assms False ra show ?thesis by (auto simp: sw_commit_def)
  next
    case ret: (Returned u s1)
    let ?v = "if counter_changed (snap_counter s1) (counter s1) then sw_validate s1
              else Some (Returned () s1)"
    from assms False ra ret obtain rb where rb: "?v = Some rb"
      by (cases ?v) (auto simp: sw_commit_def)
    have cb: "case rb of
           Returned _ s' \<Rightarrow> htmCount s' = htmCount s1 \<and> swCount s' = swCount s1
         | Aborted s' \<Rightarrow> htmCount s' = htmCount s1 \<and> swCount s' = swCount s1
         | Undefined_Behaviour \<Rightarrow> True"
      using rb sw_validate_counts [of s1 rb] by (auto split: if_splits)
    from assms False ra ret rb
    have "r = (case rb of
                  Aborted s2 \<Rightarrow> Aborted s2
                | Undefined_Behaviour \<Rightarrow> Undefined_Behaviour
                | Returned _ s2 \<Rightarrow>
                    (case writeback (accts s2) (write_set s2) of
                       None \<Rightarrow> Undefined_Behaviour
                     | Some m \<Rightarrow>
                         Returned () (s2\<lparr>accts := m, seqlock := seqlock s2 + 1,
                                 read_set := [], write_set := []\<rparr>)))"
      by (auto simp: sw_commit_def split: outcome.splits option.splits)
    with ca cb ret show ?thesis
      by (auto split: outcome.splits option.splits)
  qed
qed

lemma sw_txn_counts:
  assumes "sw_txn g s = Some r"
  shows "case r of
           Returned _ s' \<Rightarrow> htmCount s' = htmCount s \<and> swCount s' = swCount s
         | Aborted s' \<Rightarrow> htmCount s' = htmCount s \<and> swCount s' = swCount s
         | Undefined_Behaviour \<Rightarrow> True"
proof -
  from assms obtain s1 where b: "sw_begin s = Some s1"
    by (cases "sw_begin s") (auto simp: sw_txn_def)
  then have s1: "s1 = s\<lparr>rv := seqlock s, snap_counter := counter s\<rparr>"
    using sw_begin_keeps by blast
  from assms b obtain rt where t: "sw_transfers g 10 s1 = Some rt"
    by (cases "sw_transfers g 10 s1") (auto simp: sw_txn_def)
  note ct = sw_transfers_counts [OF t]
  show ?thesis
  proof (cases rt)
    case (Aborted s2)
    with assms b t ct s1 show ?thesis by (auto simp: sw_txn_def)
  next
    case Undefined_Behaviour
    with assms b t show ?thesis by (auto simp: sw_txn_def)
  next
    case (Returned u s2)
    with assms b t have c: "sw_commit s2 = Some r" by (simp add: sw_txn_def)
    from sw_commit_counts [OF c] ct Returned s1 show ?thesis
      by (auto split: outcome.splits)
  qed
qed

lemma run_txn_commits_once:
  assumes "run_txn g hw a tr s = Some y"
  shows "case y of
           Returned x s' \<Rightarrow>
             length (filter (\<lambda>e. e = HTM_Commit \<or> e = SW_Commit) (fst x)) =
               Suc (length (filter (\<lambda>e. e = HTM_Commit \<or> e = SW_Commit) tr))
             \<and> htmCount s' + swCount s' = htmCount s + swCount s + 1
         | Aborted s' \<Rightarrow> False
         | Undefined_Behaviour \<Rightarrow> True"
  using assms
proof (induction rule: run_txn.raw_induct [rotated 1, consumes 1])
  case (1 f g hw a tr s y)
  let ?h = "if xbegin_started hw then hw_region g s else Some (Aborted s)"
  from 1(2) obtain r0 where r0: "?h = Some r0"
    by (cases ?h) auto
  show ?case
  proof (cases r0)
    case (Returned u s1)
    with r0 have "hw_region g s = Some (Returned u s1)" by (auto split: if_splits)
    from hw_region_counts [OF this] 1(2) r0 Returned show ?thesis by auto
  next
    case Undefined_Behaviour
    with 1(2) r0 show ?thesis by auto
  next
    case (Aborted s1)
    with r0 have s1: "s1 = s" using hw_region_Aborted [of g s s1] by (auto split: if_splits)
    show ?thesis
    proof (cases "0 < a")
      case True
      with 1(2) r0 Aborted have "f g (tl hw) (a - 1) (tr @ [HTM_Abort]) s1 = Some y" by simp
      from 1(1) [OF this] s1 show ?thesis by (auto split: outcome.splits)
    next
      case False
      with 1(2) r0 Aborted obtain r2 where r2: "sw_txn g s1 = Some r2"
        by (cases "sw_txn g s1") auto
      note c2 = sw_txn_counts [OF r2]
      show ?thesis
      proof (cases r2)
        case ret: (Returned u s2)
        with 1(2) r0 Aborted False r2 c2 s1 show ?thesis by auto
      next
        case Undefined_Behaviour
        with 1(2) r0 Aborted False r2 show ?thesis by auto
      next
        case ab: (Aborted s2)
        with 1(2) r0 Aborted False r2
        have "f g (tl hw) 5 (tr @ [HTM_Abort, SW_Abort]) s2 = Some y" by simp
        from 1(1) [OF this] c2 ab s1 show ?thesis by (auto split: outcome.splits)
      qed
    qed
  qed
qed

lemma txn_loop_commits:
  "txn_loop g n hw tr s = Some (Returned (tr', hw') s') \<Longrightarrow>
     length (filter (\<lambda>e. e = HTM_Commit \<or> e = SW_Commit) tr') =
       length (filter (\<lambda>e. e = HTM_Commit \<or> e = SW_Commit) tr) + n
     \<and> htmCount s' + swCount s' = htmCount s + swCount s + of_nat n"
proof (induction n arbitrary: hw tr s)
  case 0
  then show ?case by simp
next
  case (Suc n)
  from Suc.prems obtain y where y: "run_txn g hw 5 tr s = Some y"
    by (cases "run_txn g hw 5 tr s") auto
  note c = run_txn_commits_once [OF y]
  from Suc.prems y c obtain tr1 hw1 s1 where r: "y = Returned (tr1, hw1) s1"
    by (cases y) auto
  with Suc.prems y have "txn_loop g n hw1 tr1 s1 = Some (Returned (tr', hw') s')" by simp
  from Suc.IH [OF this] c r show ?case by (simp add: algebra_simps)
qed

lemma th_run_commits:
  assumes "th_run g hw n args s = Some (Returned (tr, hw') s')"
  shows "length (filter (\<lambda>e. e = HTM_Commit \<or> e = SW_Commit) tr) = nat (workload n)"
    and "htmCount s' + swCount s' = of_nat (nat (workload n))"
  using txn_loop_commits [OF assms [unfolded th_run_def]] by simp_all

lemma pick_accounts_toggle:
  "tid s = 0 \<Longrightarrow> pick_accounts toggle_rand 0 0 s = Some (0, 1, s)"
  apply (subst pick_accounts.simps)
  apply (simp add: Let_def toggle_rand_def NUM_ACCTS_def)
  apply (subst pick_accounts.simps)
  apply simp
  done

lemma hw_region_toggle:
  assumes "tid s = 0" and "seqlock s AND 1 = 0" and "acct_at (accts s) 0 = Some c"
    and "acct_value c <s TRFR_AMT"
  shows "hw_region toggle_rand s =
           Some (Returned () (s\<lparr>counter := (counter s)[0 := counter s ! 0 + 1]\<rparr>))"
  using assms by (simp add: hw_region_def hw_transfers_numeral pick_accounts_toggle)

lemma txn_loop_toggle:
  assumes "tid s = 0" and "seqlock s AND 1 = 0" and "acct_at (accts s) 0 = Some c"
    and "acct_value c <s TRFR_AMT" and "0 < length (counter s)"
  shows "txn_loop toggle_rand k (replicate k True @ hw) tr s =
           Some (Returned (tr @ replicate k HTM_Commit, hw)
             (s\<lparr>counter := (counter s)[0 := counter s ! 0 + of_nat k],
                htmCount := htmCount s + of_nat k\<rparr>))"
  using assms
proof (induction k arbitrary: tr s)
  case 0
  then show ?case by simp
next
  case (Suc k)
  let ?s1 = "s\<lparr>counter := (counter s)[0 := counter s ! 0 + 1], htmCount := htmCount s + 1\<rparr>"
  have r: "run_txn toggle_rand (replicate (Suc k) True @ hw) 5 tr s =
             Some (Returned (tr @ [HTM_Commit], replicate k True @ hw) ?s1)"
    using run_txn_hw_commit [OF _ hw_region_toggle [OF Suc.prems(1-4)],
        of "replicate (Suc k) True @ hw" 5 tr]
    by (simp add: xbegin_started_def)
  have "txn_loop toggle_rand k (replicate k True @ hw) (tr @ [HTM_Commit]) ?s1 =
           Some (Returned ((tr @ [HTM_Commit]) @ replicate k HTM_Commit, hw)
             (?s1\<lparr>counter := (counter ?s1)[0 := counter ?s1 ! 0 + of_nat k],
                htmCount := htmCount ?s1 + of_nat k\<rparr>))"
    using Suc.prems by (intro Suc.IH) simp_all
  with r Suc.prems(5) show ?case
    by (simp add: replicate_app_Cons_same ac_simps)
qed

lemma th_run_toggle:
  "th_run toggle_rand (replicate 1562 True) 64 0 broke_state =
     Some (Returned (replicate 1562 HTM_Commit, [])
       (broke_state\<lparr>counter := (replicate 72 0)[0 := 1562], htmCount := 1562\<rparr>))"
proof -
  let ?s = "broke_state\<lparr>tid := word_of_int 0, htmCount := 0, swCount := 0\<rparr>"
  have e: "?s = broke_state" by (simp add: broke_state_def init_state_def)
  have a: "acct_at (accts broke_state) 0 = Some \<lparr>acct_addr = 0, acct_value = 0\<rparr>"
    by (simp add: broke_state_def init_state_def acct_at_def length_init_accts)
  have w: "nat (workload 64) = 1562" by (simp add: workload_pos)
  have p: "tid broke_state = 0" "seqlock broke_state AND 1 = 0"
    "0 < length (counter broke_state)"
    by (simp_all add: broke_state_def init_state_def)
  have v: "acct_value \<lparr>acct_addr = 0, acct_value = 0\<rparr> <s TRFR_AMT"
    by (simp add: TRFR_AMT_def word_sless_alt)
  have "txn_loop toggle_rand 1562 (replicate 1562 True @ []) [] broke_state =
           Some (Returned ([] @ replicate 1562 HTM_Commit, [])
             (broke_state\<lparr>counter := (counter broke_state)[0 := counter broke_state ! 0 + of_nat 1562],
                htmCount := htmCount broke_state + of_nat 1562\<rparr>))"
    by (rule txn_loop_toggle [OF p(1,2) a v p(3)])
  then show ?thesis
    unfolding th_run_def e w by (simp add: broke_state_def init_state_def)
qed

section \<open>The commit protocol without an intervening hardware commit\<close>

text \<open>
  What \<^verbatim>\<open>sw_commit\<close> does when no counter slot differs from its snapshot: the
  compare-and-swap takes \<^verbatim>\<open>seqlock\<close> from \<^verbatim>\<open>rv\<close> to \<open>rv + 1\<close> (after one
  \<^verbatim>\<open>sw_validate\<close> that refreshes \<^verbatim>\<open>rv\<close>, if the first attempt fails), the write set is
  applied in order, \<^verbatim>\<open>seqlock\<close> becomes \<open>rv + 2\<close> and both logs are cleared. And
  \<^verbatim>\<open>rv\<close> is even from \<^verbatim>\<open>sw_begin\<close> on.
\<close>

lemma sw_commit_quiet:
  assumes "write_set s \<noteq> []" and "seqlock s = rv s"
    and "\<not> counter_changed (snap_counter s) (counter s)"
    and "writeback (accts s) (write_set s) = Some m"
  shows "sw_commit s =
           Some (Returned () (s\<lparr>accts := m, seqlock := rv s + 2, read_set := [], write_set := []\<rparr>))"
  using assms by (simp add: sw_commit_def acquire_window_free add.assoc)

lemma sw_commit_after_validate:
  assumes "write_set s \<noteq> []" and "seqlock s \<noteq> rv s" and "seqlock s AND 1 = 0"
    and "read_set_scan (accts s) (read_set s) = Scan_Done"
    and "\<not> counter_changed (snap_counter s) (counter s)"
    and "writeback (accts s) (write_set s) = Some m"
  shows "sw_commit s =
           Some (Returned ()
             (s\<lparr>accts := m, rv := seqlock s, seqlock := seqlock s + 2, read_set := [],
                write_set := []\<rparr>))"
  using assms by (simp add: sw_commit_def acquire_window_busy add.assoc)

lemma rv_even_established:
  "sw_begin s = Some s' \<Longrightarrow> rv s' AND 1 = 0"
  "sw_validate s = Some (Returned u s') \<Longrightarrow> rv s' AND 1 = 0"
  using sw_begin_keeps [of s s'] sw_validate_Returned [of s u s']
  by (auto simp: sw_begin_def dest: read_seqlock_even_Some split: Option.bind_splits)

lemma rv_even_kept:
  "rv s AND 1 = 0 \<Longrightarrow> sw_read a s = Some (Returned v s') \<Longrightarrow> rv s' AND 1 = 0"
  "rv s AND 1 = 0 \<Longrightarrow> rv (sw_write a v s) AND 1 = 0"
proof -
  assume e: "rv s AND 1 = 0" and r: "sw_read a s = Some (Returned v s')"
  show "rv s' AND 1 = 0"
  proof (cases "find (\<lambda>e. acct_addr e = a) (rev (write_set s))")
    case (Some x)
    with r e show ?thesis by (simp add: sw_read_def)
  next
    case None
    with r have "\<exists>v0. sw_read_loop a v0 s = Some (Returned v s')"
      by (auto simp: sw_read_def split: option.splits)
    then obtain v0 where l: "sw_read_loop a v0 s = Some (Returned v s')" by blast
    show ?thesis
    proof (cases "rv s = seqlock s")
      case True
      with l e show ?thesis by (auto simp: sw_read_loop_quiet)
    next
      case False
      with l obtain u s1 where v: "sw_validate s = Some (Returned u s1)"
        by (cases "sw_validate s")
           (auto simp: sw_read_loop_changed split: outcome.splits option.splits)
      from sw_validate_Returned [OF v] l False v show ?thesis
        by (auto simp: sw_read_loop_changed split: option.splits)
    qed
  qed
next
  assume "rv s AND 1 = 0"
  then show "rv (sw_write a v s) AND 1 = 0" by (simp add: sw_write_def)
qed

section \<open>Threads that run without hardware transactions\<close>

text \<open>
  When every hardware region aborts and no other thread interferes, each transaction
  takes six hardware aborts and one software attempt, which commits; a thread then
  finishes its loop whenever the account-picking loop terminates for the generator.
\<close>

lemma sw_read_returns:
  assumes "rv s = seqlock s" and "0 \<le> sint r" and "nat (sint r) < length (accts s)"
  shows "\<exists>a rs. sw_read r s = Some (Returned a (s\<lparr>read_set := rs\<rparr>))"
proof (cases "find (\<lambda>e. acct_addr e = r) (rev (write_set s))")
  case (Some e)
  then have "sw_read r s = Some (Returned (acct_value e) (s\<lparr>read_set := read_set s\<rparr>))"
    by (simp add: sw_read_def)
  then show ?thesis by blast
next
  case None
  with assms have "sw_read r s =
      Some (Returned (acct_value (accts s ! nat (sint r)))
        (s\<lparr>read_set := read_set s @
           [\<lparr>acct_addr = r, acct_value = acct_value (accts s ! nat (sint r))\<rparr>]\<rparr>))"
    by (simp add: sw_read_def acct_at_def sw_read_loop_quiet)
  then show ?thesis by blast
qed

lemma sw_transfers_returns:
  assumes "\<forall>s. pick_accounts g 0 0 s \<noteq> None" and "rv s = seqlock s"
    and "writeback (accts s) (write_set s) = Some m'" and "length (accts s) = 1000"
  shows "\<exists>u s'. sw_transfers g n s = Some (Returned u s')"
  using assms(2-4)
proof (induction n arbitrary: s m')
  case 0
  then show ?case by simp
next
  case (Suc n)
  from assms(1) have "pick_accounts g 0 0 s \<noteq> None" by blast
  then obtain r1 r2 s1 where p: "pick_accounts g 0 0 s = Some (r1, r2, s1)"
    by (cases "pick_accounts g 0 0 s") auto
  note pk = pick_accounts_Some [OF p]
  from pk(2) obtain t where s1: "s1 = s\<lparr>tid := t\<rparr>" by blast
  note i1 = small_index [OF pk(3)] and i2 = small_index [OF pk(4)]
  have "\<exists>a rs. sw_read r1 s1 = Some (Returned a (s1\<lparr>read_set := rs\<rparr>))"
    using Suc.prems i1 s1 by (intro sw_read_returns) simp_all
  then obtain a1 rs where ra: "sw_read r1 s1 = Some (Returned a1 (s1\<lparr>read_set := rs\<rparr>))"
    by blast
  let ?s2 = "s1\<lparr>read_set := rs\<rparr>"
  show ?case
  proof (cases "a1 <s TRFR_AMT")
    case True
    with p ra show ?thesis by simp
  next
    case False
    have "\<exists>a rs'. sw_read r2 ?s2 = Some (Returned a (?s2\<lparr>read_set := rs'\<rparr>))"
      using Suc.prems i2 s1 by (intro sw_read_returns) simp_all
    then obtain a2 rs' where rb: "sw_read r2 ?s2 = Some (Returned a2 (?s2\<lparr>read_set := rs'\<rparr>))"
      by blast
    let ?s3 = "?s2\<lparr>read_set := rs'\<rparr>"
    let ?s4 = "sw_write r2 (a2 + TRFR_AMT) (sw_write r1 (a1 - TRFR_AMT) ?s3)"
    from writeback_Some [OF Suc.prems(2)] Suc.prems(3) have len: "length m' = 1000" by simp
    let ?i1 = "nat (sint r1)" and ?i2 = "nat (sint r2)"
    let ?m1 = "m'[?i1 := (m' ! ?i1)\<lparr>acct_value := a1 - TRFR_AMT\<rparr>]"
    let ?m2 = "?m1[?i2 := (?m1 ! ?i2)\<lparr>acct_value := a2 + TRFR_AMT\<rparr>]"
    have wb: "writeback (accts ?s4) (write_set ?s4) = Some ?m2"
      using Suc.prems(2) i1 i2 len
      by (simp add: sw_write_def s1 writeback_append acct_store_def)
    have q: "rv ?s4 = seqlock ?s4" "length (accts ?s4) = 1000"
      using Suc.prems(1,3) by (simp_all add: sw_write_def s1)
    from Suc.IH [OF q(1) wb q(2)] obtain u s' where
      "sw_transfers g n ?s4 = Some (Returned u s')" by blast
    with p ra rb False show ?thesis by simp
  qed
qed

lemma even_plus_two: "(w :: 32 word) AND 1 = 0 \<Longrightarrow> (w + 2) AND 1 = 0"
  by (simp add: and_one_eq even_iff_mod_2_eq_zero [symmetric])

lemma sw_txn_returns:
  assumes "\<forall>s. pick_accounts g 0 0 s \<noteq> None"
    and "seqlock s AND 1 = 0" and "length (accts s) = 1000" and "write_set s = []"
  shows "\<exists>s'. sw_txn g s = Some (Returned () s')
           \<and> seqlock s' AND 1 = 0 \<and> length (accts s') = 1000 \<and> write_set s' = []"
proof -
  define s0 where "s0 = s\<lparr>rv := seqlock s, snap_counter := counter s\<rparr>"
  have b: "sw_begin s = Some s0"
    using assms(2) by (simp add: s0_def sw_begin_def read_seqlock_even_even)
  have p0: "rv s0 = seqlock s0" "writeback (accts s0) (write_set s0) = Some (accts s0)"
    "length (accts s0) = 1000" "snap_counter s0 = counter s0" "seqlock s0 = seqlock s"
    using assms(3,4) by (simp_all add: s0_def)
  from sw_transfers_returns [OF assms(1) p0(1,2,3)] obtain u s3 where
    t: "sw_transfers g 10 s0 = Some (Returned u s3)" by blast
  from sw_transfers_total [OF t p0(1,2)] obtain m'' where
    f: "rv s3 = seqlock s3" "accts s3 = accts s0" "seqlock s3 = seqlock s0"
      "snap_counter s3 = snap_counter s0" "counter s3 = counter s0"
    and w: "writeback (accts s3) (write_set s3) = Some m''"
    by blast
  have run: "sw_txn g s = sw_commit s3"
    using b t by (simp add: sw_txn_def)
  show ?thesis
  proof (cases "write_set s3 = []")
    case True
    then have "sw_commit s3 = Some (Returned () s3)" by (simp add: sw_commit_def)
    with run True f p0 assms(2) show ?thesis by simp
  next
    case False
    have n: "\<not> counter_changed (snap_counter s3) (counter s3)"
      using f(4,5) p0(4) by (simp add: counter_unchanged)
    let ?s' = "s3\<lparr>accts := m'', seqlock := rv s3 + 2, read_set := [], write_set := []\<rparr>"
    have c: "sw_commit s3 = Some (Returned () ?s')"
      using False f(1) n w by (intro sw_commit_quiet) simp_all
    have "length m'' = 1000" using writeback_Some [OF w] f(2) p0(3) by simp
    moreover have "(rv s3 + 2) AND 1 = 0"
      using f(1,3) p0(5) assms(2) by (intro even_plus_two) simp
    ultimately show ?thesis using run c by simp
  qed
qed

lemma run_txn_without_htm:
  assumes "\<forall>s. pick_accounts g 0 0 s \<noteq> None"
    and "seqlock s AND 1 = 0" and "length (accts s) = 1000" and "write_set s = []"
  shows "\<exists>s'. run_txn g [] 5 tr s =
             Some (Returned
               (tr @ [HTM_Abort, HTM_Abort, HTM_Abort, HTM_Abort, HTM_Abort, HTM_Abort,
                      SW_Commit], []) s')
           \<and> seqlock s' AND 1 = 0 \<and> length (accts s') = 1000 \<and> write_set s' = []"
proof -
  from sw_txn_returns [OF assms] obtain s2 where
    t: "sw_txn g s = Some (Returned () s2)"
    and i: "seqlock s2 AND 1 = 0" "length (accts s2) = 1000" "write_set s2 = []"
    by blast
  have "run_txn g [] 5 tr s =
          Some (Returned
            (tr @ [HTM_Abort, HTM_Abort, HTM_Abort, HTM_Abort, HTM_Abort, HTM_Abort,
                   SW_Commit], []) (s2\<lparr>swCount := swCount s2 + 1\<rparr>))"
    using t by (simp add: run_txn_hw_abort run_txn_fallback xbegin_started_def)
  with i show ?thesis by simp
qed

lemma txn_loop_without_htm:
  assumes "\<forall>s. pick_accounts g 0 0 s \<noteq> None"
    and "seqlock s AND 1 = 0" and "length (accts s) = 1000" and "write_set s = []"
  shows "\<exists>tr' s'. txn_loop g k [] tr s = Some (Returned (tr', []) s')"
  using assms(2-4)
proof (induction k arbitrary: tr s)
  case 0
  then show ?case by simp
next
  case (Suc k)
  from run_txn_without_htm [OF assms(1) Suc.prems, of tr] obtain s1 tr1 where
    r: "run_txn g [] 5 tr s = Some (Returned (tr1, []) s1)"
    and i: "seqlock s1 AND 1 = 0" "length (accts s1) = 1000" "write_set s1 = []"
    by blast
  from Suc.IH [OF i, of tr1] r show ?case by simp
qed

lemma th_run_without_htm:
  assumes "\<forall>s. pick_accounts g 0 0 s \<noteq> None"
  shows "\<exists>tr s'. th_run g [] n args init_state = Some (Returned (tr, []) s')"
  unfolding th_run_def
  by (rule txn_loop_without_htm [OF assms])
     (simp_all add: init_state_def length_init_accts)

lemma next_residue_differs: "(t :: 32 word) mod 1000 \<noteq> (t + 1) mod 1000"
proof
  assume e: "t mod 1000 = (t + 1) mod 1000"
  then have "unat (t mod 1000) = unat ((t + 1) mod 1000)" by simp
  then have m: "unat t mod 1000 = ((unat t + 1) mod 4294967296) mod 1000"
    by (simp add: unat_mod unat_word_ariths)
  have b: "unat t < 4294967296" using unsigned_less [of t, where 'a = nat] by simp
  show False
  proof (cases "unat t + 1 < 4294967296")
    case True
    with m have "unat t mod 1000 = Suc (unat t) mod 1000" by simp
    then show False by (simp add: mod_Suc split: if_splits)
  next
    case False
    with b have "unat t = 4294967295" by simp
    with m show False by simp
  qed
qed

lemma pick_accounts_counting_total: "\<forall>s. pick_accounts counting_rand 0 0 s \<noteq> None"
  by (simp add: pick_accounts_counting next_residue_differs)

section \<open>The workload of the threads\<close>

text \<open>
  The loop bound. For a thread count \<open>n\<close> from 1 to 64, \<^verbatim>\<open>th_run\<close> is called \<open>n\<close>
  times (with the arguments 1 to \<open>n - 1\<close> on created threads and 0 on the main thread).
  Each call loops over \<open>workload = 100000 div n\<close> transactions: a call that returns has
  committed exactly that many, counted by \<^verbatim>\<open>htmCount + swCount\<close>; and a call returns
  when it runs alone from the state \<^verbatim>\<open>main\<close> sets up, without hardware transactions
  and with a generator for which the account-picking loop terminates.
\<close>

lemma thread_loop_bound:
  "1 \<le> n \<and> n \<le> 64 \<longrightarrow>
     length (thread_ids n) = nat n \<and> distinct (thread_ids n)
     \<and> workload n = 100000 div n
     \<and> (th_run g hw n args s = Some (Returned (tr, hw') s') \<longrightarrow>
          length (filter (\<lambda>e. e = HTM_Commit \<or> e = SW_Commit) tr) = nat (100000 div n)
          \<and> htmCount s' + swCount s' = of_nat (nat (100000 div n)))
     \<and> ((\<forall>s0. pick_accounts g 0 0 s0 \<noteq> None) \<longrightarrow>
          (\<exists>tr0 s1. th_run g [] n args init_state = Some (Returned (tr0, []) s1)))
     \<and> total_transactions n = n * (100000 div n)
     \<and> (\<not> n dvd 100000 \<longrightarrow> total_transactions n < 100000)"
proof (intro impI)
  assume n: "1 \<le> n \<and> n \<le> 64"
  then have w: "workload n = 100000 div n" by (simp add: workload_pos)
  have d: "distinct (thread_ids n)"
    by (auto simp: thread_ids_eq distinct_map inj_on_def)
  have lt: "total_transactions n < 100000" if "\<not> n dvd 100000"
  proof -
    have "n * (100000 div n) = 100000 - 100000 mod n"
      by (simp add: minus_mod_eq_mult_div)
    moreover have "100000 mod n \<noteq> 0"
      using that by (simp add: dvd_eq_mod_eq_0)
    moreover have "0 \<le> 100000 mod n"
      using n by (intro pos_mod_sign) simp
    ultimately have "n * (100000 div n) < 100000" by linarith
    then show ?thesis using n by (simp add: total_transactions_eq)
  qed
  have r: "length (filter (\<lambda>e. e = HTM_Commit \<or> e = SW_Commit) tr) = nat (100000 div n)
          \<and> htmCount s' + swCount s' = of_nat (nat (100000 div n))"
    if "th_run g hw n args s = Some (Returned (tr, hw') s')"
    using th_run_commits [OF that] w by simp
  have t: "\<exists>tr0 s1. th_run g [] n args init_state = Some (Returned (tr0, []) s1)"
    if "\<forall>s0. pick_accounts g 0 0 s0 \<noteq> None"
    using that by (rule th_run_without_htm)
  from n d lt r w t show "length (thread_ids n) = nat n \<and> distinct (thread_ids n)
     \<and> workload n = 100000 div n
     \<and> (th_run g hw n args s = Some (Returned (tr, hw') s') \<longrightarrow>
          length (filter (\<lambda>e. e = HTM_Commit \<or> e = SW_Commit) tr) = nat (100000 div n)
          \<and> htmCount s' + swCount s' = of_nat (nat (100000 div n)))
     \<and> ((\<forall>s0. pick_accounts g 0 0 s0 \<noteq> None) \<longrightarrow>
          (\<exists>tr0 s1. th_run g [] n args init_state = Some (Returned (tr0, []) s1)))
     \<and> total_transactions n = n * (100000 div n)
     \<and> (\<not> n dvd 100000 \<longrightarrow> total_transactions n < 100000)"
    by (simp add: length_thread_ids total_transactions_eq)
qed

lemma thread_loop_bound_example:
  "length (thread_ids 64) = 64 \<and> workload 64 = 1562
   \<and> th_run toggle_rand (replicate 1562 True) 64 0 broke_state =
       Some (Returned (replicate 1562 HTM_Commit, [])
         (broke_state\<lparr>counter := (replicate 72 0)[0 := 1562], htmCount := 1562\<rparr>))
   \<and> length (filter (\<lambda>e. e = HTM_Commit \<or> e = SW_Commit) (replicate 1562 HTM_Commit)) = 1562
   \<and> (\<exists>tr0 s1. th_run counting_rand [] 64 0 init_state = Some (Returned (tr0, []) s1))
   \<and> total_transactions 64 = 99968
   \<and> \<not> (3 :: int) dvd 100000 \<and> total_transactions 3 = 99999"
  using thread_loop_bound
      [of 64 toggle_rand "replicate 1562 True" 0 broke_state "replicate 1562 HTM_Commit" "[]"
          "broke_state\<lparr>counter := (replicate 72 0)[0 := 1562], htmCount := 1562\<rparr>"]
    thread_loop_bound [of 64 counting_rand _ 0] pick_accounts_counting_total
    thread_loop_bound [of 3] th_run_toggle
  by simp

lemma hw_region_seed_in_range:
  assumes "hw_region g s = Some (Returned u s')"
  shows "unat (tid s') < 72"
proof -
  from assms obtain v s1 where "hw_transfers g 10 s = Some (Returned v s1)"
    and "unat (tid s1) < 72"
    and "s' = s1\<lparr>counter := (counter s1)[unat (tid s1) := counter s1 ! unat (tid s1) + 1]\<rparr>"
    by (cases "hw_transfers g 10 s")
       (auto simp: hw_region_def split: if_splits outcome.splits)
  then show ?thesis by simp
qed





end
